theory Spec2Isabelle
  imports Main "HOL-Library.Log_Nat"
begin

section \<open>Python numbers\<close>

text \<open>
  The layout code of \<^verbatim>\<open>backend/main.py\<close> mixes Python \<^verbatim>\<open>int\<close> (unbounded) and
  \<^verbatim>\<open>float\<close> (IEEE binary64) values. A finite float is the rational number it denotes;
  every float operation is the exact operation followed by rounding to the nearest
  binary64 value, ties to even (\<open>fl\<close>). Magnitudes of \<open>2 ^ 1024\<close> and more, where
  Python raises \<^verbatim>\<open>OverflowError\<close> or produces \<^verbatim>\<open>inf\<close>, are beyond this model.
\<close>

definition ilog2 :: "rat \<Rightarrow> int" where
  \<comment> \<open>the binary exponent of a positive rational: \<open>2 powi ilog2 x \<le> x < 2 powi (ilog2 x + 1)\<close>\<close>
  "ilog2 x = (if 1 \<le> x then bitlen \<lfloor>x\<rfloor> - 1 else - bitlen (\<lceil>1 / x\<rceil> - 1))"

definition rne :: "rat \<Rightarrow> int" where
  \<comment> \<open>round to the nearest integer, ties to the even one\<close>
  "rne r = (let f = \<lfloor>r\<rfloor>; d = r - of_int f in
     if d < 1 / 2 then f else if 1 / 2 < d then f + 1 else if even f then f else f + 1)"

definition fl :: "rat \<Rightarrow> rat" where
  \<comment> \<open>binary64 rounding: 53 significant bits, least exponent \<open>- 1074\<close>, sign kept\<close>
  "fl x = (if x = 0 then 0 else
     (let e = max (- 1074) (ilog2 \<bar>x\<bar> - 52)
      in sgn x * (of_int (rne (\<bar>x\<bar> / 2 powi e)) * 2 powi e)))"

definition py_trunc :: "rat \<Rightarrow> int" where
  \<comment> \<open>\<^verbatim>\<open>int(x)\<close> on a float: truncation towards zero\<close>
  "py_trunc r = (if 0 \<le> r then \<lfloor>r\<rfloor> else - \<lfloor>- r\<rfloor>)"

datatype pynum = PInt int | PFloat rat

fun num_val :: "pynum \<Rightarrow> rat" where
  "num_val (PInt n) = of_int n"
| "num_val (PFloat r) = r"

fun to_float :: "pynum \<Rightarrow> rat" where
  \<comment> \<open>the implicit conversion of an operand of a mixed operation\<close>
  "to_float (PInt n) = fl (of_int n)"
| "to_float (PFloat r) = r"

fun py_mul :: "pynum \<Rightarrow> pynum \<Rightarrow> pynum" where
  "py_mul (PInt a) (PInt b) = PInt (a * b)"
| "py_mul a b = PFloat (fl (to_float a * to_float b))"

fun py_add :: "pynum \<Rightarrow> pynum \<Rightarrow> pynum" where
  "py_add (PInt a) (PInt b) = PInt (a + b)"
| "py_add a b = PFloat (fl (to_float a + to_float b))"

fun py_sub :: "pynum \<Rightarrow> pynum \<Rightarrow> pynum" where
  "py_sub (PInt a) (PInt b) = PInt (a - b)"
| "py_sub a b = PFloat (fl (to_float a - to_float b))"

fun py_truediv :: "pynum \<Rightarrow> pynum \<Rightarrow> pynum" where
  \<comment> \<open>\<^verbatim>\<open>a / b\<close>; on two ints the exact quotient is rounded once. Every division of the
      modelled code is guarded against a zero divisor.\<close>
  "py_truediv (PInt a) (PInt b) = PFloat (fl (of_int a / of_int b))"
| "py_truediv a b = PFloat (fl (to_float a / to_float b))"

definition py_max :: "pynum \<Rightarrow> pynum \<Rightarrow> pynum" where
  \<comment> \<open>\<^verbatim>\<open>max(a, b)\<close>: the first argument unless the second is greater; comparison is exact\<close>
  "py_max a b = (if num_val a < num_val b then b else a)"

definition py_min :: "pynum \<Rightarrow> pynum \<Rightarrow> pynum" where
  "py_min a b = (if num_val b < num_val a then b else a)"

fun py_int :: "pynum \<Rightarrow> int" where
  "py_int (PInt n) = n"
| "py_int (PFloat r) = py_trunc r"

text \<open>An exception raised while a function runs is a value: the function returns \<open>Inl\<close> of it.\<close>

datatype py_error = ValueError | ZeroDivisionError

section \<open>Images\<close>

text \<open>
  Pillow images are kept symbolic: an image is the expression that built it, with the
  size Pillow gives it, and a pixel is described by where its value comes from. The
  pixel data of the decoded source and the resampling filter stay opaque.
  \<^verbatim>\<open>Image.new\<close> raises \<^verbatim>\<open>ValueError\<close> for a negative width or height, and \<^verbatim>\<open>resize\<close> raises
  \<^verbatim>\<open>ValueError\<close> for a width or height below 1. Crop pads outside its image and paste clips
  to the canvas, as \<open>pixel_at\<close> has it.
\<close>

type_synonym color = "int \<times> int \<times> int \<times> int"

datatype 'a image =
    Given 'a int int
  | New int int color
  | Resize "'a image" int int
  | Crop "'a image" int int int int
  | Paste "'a image" "'a image" int int

fun image_size :: "'a image \<Rightarrow> int \<times> int" where
  "image_size (Given a w h) = (w, h)"
| "image_size (New w h c) = (w, h)"
| "image_size (Resize i w h) = (w, h)"
| "image_size (Crop i l u r b) = (r - l, b - u)"
| "image_size (Paste c i x y) = image_size c"

datatype 'a pixel = Fill color | Sample "'a image" int int | Pad

fun pixel_at :: "'a image \<Rightarrow> int \<Rightarrow> int \<Rightarrow> 'a pixel" where
  "pixel_at (Given a w h) x y = Sample (Given a w h) x y"
| "pixel_at (New w h c) x y = Fill c"
| "pixel_at (Resize i w h) x y = Sample (Resize i w h) x y"
| "pixel_at (Crop i l u r b) x y =
     (if 0 \<le> x + l \<and> x + l < fst (image_size i) \<and> 0 \<le> y + u \<and> y + u < snd (image_size i)
      then pixel_at i (x + l) (y + u) else Pad)"
| "pixel_at (Paste c i px py) x y =
     (if px \<le> x \<and> x < px + fst (image_size i) \<and> py \<le> y \<and> y < py + snd (image_size i)
      then pixel_at i (x - px) (y - py) else pixel_at c x y)"

definition image_new :: "int \<Rightarrow> int \<Rightarrow> color \<Rightarrow> py_error + 'a image" where
  \<comment> \<open>\<^verbatim>\<open>Image.new("RGBA", (w, h), color)\<close>\<close>
  "image_new w h c = (if w < 0 \<or> h < 0 then Inl ValueError else Inr (New w h c))"

definition image_resize :: "'a image \<Rightarrow> int \<Rightarrow> int \<Rightarrow> py_error + 'a image" where
  \<comment> \<open>\<^verbatim>\<open>img.resize((w, h), Image.LANCZOS)\<close>\<close>
  "image_resize img w h = (if w < 1 \<or> h < 1 then Inl ValueError else Inr (Resize img w h))"

section \<open>Hero canvas compositor: \<^verbatim>\<open>create_base_canvas_with_hero\<close>\<close>

definition default_prominence :: pynum where
  "default_prominence = PFloat (fl (7 / 10))"

definition default_bg_color :: color where
  "default_bg_color = (255, 255, 255, 0)"

definition scale_to_cover_canvas :: "int \<Rightarrow> int \<Rightarrow> int \<Rightarrow> int \<Rightarrow> pynum" where
  "scale_to_cover_canvas iw ih tw th =
     py_max (if iw > 0 then py_truediv (PInt tw) (PInt iw) else PInt 1)
            (if ih > 0 then py_truediv (PInt th) (PInt ih) else PInt 1)"

definition cover_crop_box :: "int \<Rightarrow> int \<Rightarrow> int \<Rightarrow> int \<Rightarrow> int \<times> int \<times> int \<times> int" where
  "cover_crop_box rw rh tw th =
     (let cx = (rw - tw) div 2; cy = (rh - th) div 2
      in (max 0 cx, max 0 cy, min rw (cx + tw), min rh (cy + th)))"

definition no_hero_canvas :: "'a image \<Rightarrow> int \<Rightarrow> int \<Rightarrow> 'a image \<Rightarrow> py_error + 'a image" where
  \<comment> \<open>the body of the branch \<^verbatim>\<open>if not hero_bbox or hero_area_w <= 0 or hero_area_h <= 0\<close>,
      on the canvas created at the start of the function\<close>
  "no_hero_canvas src tw th canvas =
     (let (iw, ih) = image_size src;
          scale = scale_to_cover_canvas iw ih tw th;
          rw = py_int (py_mul (PInt iw) scale);
          rh = py_int (py_mul (PInt ih) scale)
      in case image_resize src rw rh of
           Inl e \<Rightarrow> Inl e
         | Inr img2 \<Rightarrow>
             (let (l, u, r, b) = cover_crop_box rw rh tw th
              in Inr (Paste canvas (Crop img2 l u r b) 0 0)))"

definition scale_for_hero :: "int \<Rightarrow> int \<Rightarrow> pynum \<Rightarrow> int \<Rightarrow> int \<Rightarrow> pynum" where
  \<comment> \<open>the guards \<^verbatim>\<open>if h_w > 0 else float("inf")\<close> hold where this is used: a hero box
      with \<^verbatim>\<open>h_w <= 0\<close> or \<^verbatim>\<open>h_h <= 0\<close> has returned before\<close>
  "scale_for_hero hero_area_w hero_area_h hero_prominence h_w h_h =
     py_min (py_truediv (py_mul (PInt hero_area_w) hero_prominence) (PInt h_w))
            (py_truediv (py_mul (PInt hero_area_h) hero_prominence) (PInt h_h))"

definition final_scale ::
  "int \<Rightarrow> int \<Rightarrow> int \<Rightarrow> int \<Rightarrow> int \<Rightarrow> int \<Rightarrow> pynum \<Rightarrow> int \<Rightarrow> int \<Rightarrow> pynum" where
  "final_scale iw ih tw th hero_area_w hero_area_h hero_prominence h_w h_h =
     py_max (scale_for_hero hero_area_w hero_area_h hero_prominence h_w h_h)
            (scale_to_cover_canvas iw ih tw th)"

definition scaled_dim :: "int \<Rightarrow> int \<Rightarrow> pynum \<Rightarrow> int" where
  \<comment> \<open>\<^verbatim>\<open>max(tw, int(iw * final_scale))\<close>\<close>
  "scaled_dim t i fs = max t (py_int (py_mul (PInt i) fs))"

definition crop_coord :: "int \<Rightarrow> int \<Rightarrow> int \<Rightarrow> int \<Rightarrow> pynum \<Rightarrow> int \<Rightarrow> int \<Rightarrow> pynum" where
  \<comment> \<open>one axis of the crop origin: hero centre after scaling, minus the centre of the
      hero area, clamped by \<^verbatim>\<open>max(0, min(crop_x, scaled_iw - tw))\<close>\<close>
  "crop_coord x1 h_w area_x area_w fs scaled t =
     (let hcx = py_add (PInt x1) (py_truediv (PInt h_w) (PInt 2));
          scaled_hero_cx = py_mul hcx fs;
          target_hero_center = py_add (PInt area_x) (py_truediv (PInt area_w) (PInt 2));
          crop_x = py_sub scaled_hero_cx target_hero_center
      in py_max (PInt 0) (py_min crop_x (PInt (scaled - t))))"

definition hero_canvas ::
  "'a image \<Rightarrow> int \<Rightarrow> int \<Rightarrow> int \<times> int \<times> int \<times> int \<Rightarrow> int \<Rightarrow> int \<Rightarrow> int \<Rightarrow> int \<Rightarrow> pynum \<Rightarrow> 'a image
     \<Rightarrow> py_error + 'a image" where
  \<comment> \<open>the body after the two early returns, for a hero box with positive extents\<close>
  "hero_canvas src tw th hero_bbox hero_area_x hero_area_y hero_area_w hero_area_h
       hero_prominence canvas =
     (let (iw, ih) = image_size src;
          (x1, y1, x2, y2) = hero_bbox;
          h_w = x2 - x1; h_h = y2 - y1;
          fs = final_scale iw ih tw th hero_area_w hero_area_h hero_prominence h_w h_h;
          scaled_iw = scaled_dim tw iw fs;
          scaled_ih = scaled_dim th ih fs
      in case image_resize src scaled_iw scaled_ih of
           Inl e \<Rightarrow> Inl e
         | Inr img_resized \<Rightarrow>
             (let crop_x = crop_coord x1 h_w hero_area_x hero_area_w fs scaled_iw tw;
                  crop_y = crop_coord y1 h_h hero_area_y hero_area_h fs scaled_ih th;
                  final_img_to_paste = Crop img_resized (py_int crop_x) (py_int crop_y)
                      (py_int (py_add crop_x (PInt tw))) (py_int (py_add crop_y (PInt th)))
              in Inr (Paste canvas final_img_to_paste 0 0)))"

fun create_base_canvas_with_hero ::
  "'a image \<Rightarrow> int \<Rightarrow> int \<Rightarrow> (int \<times> int \<times> int \<times> int) option \<Rightarrow> int \<Rightarrow> int \<Rightarrow> int \<Rightarrow> int
     \<Rightarrow> pynum \<Rightarrow> color \<Rightarrow> py_error + 'a image" where
  "create_base_canvas_with_hero src tw th None hero_area_x hero_area_y hero_area_w hero_area_h
       hero_prominence bg_color =
     (case image_new tw th bg_color of
        Inl e \<Rightarrow> Inl e
      | Inr canvas \<Rightarrow>
          if fst (image_size src) = 0 \<or> snd (image_size src) = 0 then Inr canvas
          else no_hero_canvas src tw th canvas)"
| "create_base_canvas_with_hero src tw th (Some (x1, y1, x2, y2)) hero_area_x hero_area_y
       hero_area_w hero_area_h hero_prominence bg_color =
     (case image_new tw th bg_color of
        Inl e \<Rightarrow> Inl e
      | Inr canvas \<Rightarrow>
          if fst (image_size src) = 0 \<or> snd (image_size src) = 0 then Inr canvas
          else if hero_area_w \<le> 0 \<or> hero_area_h \<le> 0 then no_hero_canvas src tw th canvas
          else if x2 - x1 \<le> 0 \<or> y2 - y1 \<le> 0
            then create_base_canvas_with_hero src tw th None hero_area_x hero_area_y hero_area_w
                   hero_area_h default_prominence bg_color
          else hero_canvas src tw th (x1, y1, x2, y2) hero_area_x hero_area_y hero_area_w
                   hero_area_h hero_prominence canvas)"

section \<open>Font metrics probe: \<^verbatim>\<open>find_font_size_for_height\<close>\<close>

text \<open>
  A font is its metrics: the height \<^verbatim>\<open>bbox[3] - bbox[1]\<close> of the sample text at each size,
  or nothing where measuring raises or yields an empty box (the source then takes the
  size itself as the height). \<^verbatim>\<open>best_diff\<close> starts as \<^verbatim>\<open>float('inf')\<close>, modelled by \<open>None\<close>.
\<close>

type_synonym font_metrics = "int \<Rightarrow> int option"

definition measured_height :: "font_metrics \<Rightarrow> int \<Rightarrow> int" where
  "measured_height font mid = (case font mid of Some h \<Rightarrow> h | None \<Rightarrow> mid)"

definition improves :: "int \<Rightarrow> int option \<Rightarrow> bool" where
  "improves diff best_diff = (case best_diff of None \<Rightarrow> True | Some d \<Rightarrow> diff < d)"

function ffs_loop :: "font_metrics \<Rightarrow> int \<Rightarrow> int \<Rightarrow> int \<Rightarrow> int \<Rightarrow> int option \<Rightarrow> int" where
  "ffs_loop font target_height low high best_size best_diff =
     (if low \<le> high then
        (let mid = (low + high) div 2 in
         if mid \<le> 0 then ffs_loop font target_height 1 high best_size best_diff
         else
           (let h = measured_height font mid;
                diff = \<bar>h - target_height\<bar>;
                best_diff' = (if improves diff best_diff then Some diff else best_diff);
                best_size' = (if improves diff best_diff then mid else best_size)
            in if h < target_height
                 then ffs_loop font target_height (mid + 1) high best_size' best_diff'
               else if h > target_height
                 then ffs_loop font target_height low (mid - 1) best_size' best_diff'
               else mid))
      else best_size)"
  by pat_completeness auto
termination
  by (relation "measure (\<lambda>(font, target_height, low, high, best_size, best_diff). nat (high - low + 1))")
     auto

definition find_font_size_for_height :: "int \<Rightarrow> font_metrics \<Rightarrow> int \<Rightarrow> int \<Rightarrow> int" where
  "find_font_size_for_height target_height font min_size max_size =
     ffs_loop font (max 1 target_height) min_size max_size min_size None"

text \<open>
  The sizes at which the loop measures the font, in order: the same loop, recording
  \<^verbatim>\<open>mid\<close> instead of tracking the best size.
\<close>

function probed_sizes :: "font_metrics \<Rightarrow> int \<Rightarrow> int \<Rightarrow> int \<Rightarrow> int list" where
  "probed_sizes font target_height low high =
     (if low \<le> high then
        (let mid = (low + high) div 2 in
         if mid \<le> 0 then probed_sizes font target_height 1 high
         else
           (let h = measured_height font mid
            in mid # (if h < target_height then probed_sizes font target_height (mid + 1) high
                      else if h > target_height then probed_sizes font target_height low (mid - 1)
                      else [])))
      else [])"
  by pat_completeness auto
termination
  by (relation "measure (\<lambda>(font, target_height, low, high). nat (high - low + 1))") auto

declare ffs_loop.simps [simp del] probed_sizes.simps [simp del]

definition height_diff :: "font_metrics \<Rightarrow> int \<Rightarrow> int \<Rightarrow> int" where
  "height_diff font target_height s = \<bar>measured_height font s - target_height\<bar>"

section \<open>Text flow: the greedy word wrap of \<^verbatim>\<open>generate_ads\<close>\<close>

text \<open>
  A Python string is the list of its code points. \<open>py_isspace\<close> is \<^verbatim>\<open>str.isspace\<close> on one
  character, \<open>py_split\<close> is \<^verbatim>\<open>s.split()\<close> and \<open>split_on_space\<close> is \<^verbatim>\<open>s.split(" ")\<close>. The font
  is the function \<^verbatim>\<open>getbbox\<close> of the loaded font, with \<open>None\<close> for an empty box.
\<close>

type_synonym pystr = "nat list"

definition py_isspace :: "nat \<Rightarrow> bool" where
  "py_isspace c = ((9 \<le> c \<and> c \<le> 13) \<or> (28 \<le> c \<and> c \<le> 32) \<or> c = 133 \<or> c = 160 \<or> c = 5760 \<or>
     (8192 \<le> c \<and> c \<le> 8202) \<or> c = 8232 \<or> c = 8233 \<or> c = 8239 \<or> c = 8287 \<or> c = 12288)"

fun split_ws :: "pystr \<Rightarrow> pystr \<Rightarrow> pystr list" where
  "split_ws cur [] = (if cur = [] then [] else [cur])"
| "split_ws cur (c # cs) =
     (if py_isspace c then (if cur = [] then split_ws [] cs else cur # split_ws [] cs)
      else split_ws (cur @ [c]) cs)"

definition py_split :: "pystr \<Rightarrow> pystr list" where
  "py_split s = split_ws [] s"

fun split_sep :: "nat \<Rightarrow> pystr \<Rightarrow> pystr \<Rightarrow> pystr list" where
  "split_sep sep cur [] = [cur]"
| "split_sep sep cur (c # cs) =
     (if c = sep then cur # split_sep sep [] cs else split_sep sep (cur @ [c]) cs)"

definition split_on_space :: "pystr \<Rightarrow> pystr list" where
  "split_on_space s = split_sep 32 [] s"

type_synonym font_bbox = "pystr \<Rightarrow> (int \<times> int \<times> int \<times> int) option"

definition line_width :: "font_bbox \<Rightarrow> int \<Rightarrow> pystr \<Rightarrow> pynum" where
  "line_width getbbox font_sz l =
     (case getbbox l of
        Some (x0, y0, x1, y1) \<Rightarrow> PInt (x1 - x0)
      | None \<Rightarrow> py_mul (py_mul (PInt (int (length l))) (PInt font_sz)) (PFloat (fl (6 / 10))))"

fun wrap_words :: "font_bbox \<Rightarrow> int \<Rightarrow> int \<Rightarrow> pystr list \<Rightarrow> pystr \<Rightarrow> pystr list \<Rightarrow> pystr \<times> pystr list" where
  "wrap_words getbbox font_sz max_w [] curr_l lines = (curr_l, lines)"
| "wrap_words getbbox font_sz max_w (word # words) curr_l lines =
     (let test_l = curr_l @ (if curr_l \<noteq> [] then [32] else []) @ word;
          lw = line_width getbbox font_sz test_l
      in if num_val lw \<le> of_int max_w
           then wrap_words getbbox font_sz max_w words test_l lines
         else wrap_words getbbox font_sz max_w words word
                (if curr_l \<noteq> [] then lines @ [curr_l] else lines))"

definition greedy_lines :: "font_bbox \<Rightarrow> int \<Rightarrow> int \<Rightarrow> pystr \<Rightarrow> pystr list" where
  "greedy_lines getbbox font_sz max_w content_item =
     (case wrap_words getbbox font_sz max_w (py_split content_item) [] [] of
        (curr_l, lines) \<Rightarrow> if curr_l \<noteq> [] then lines @ [curr_l] else lines)"

definition py_slice_to :: "pystr \<Rightarrow> int \<Rightarrow> pystr" where
  "py_slice_to s k = (if 0 \<le> k then take (nat k) s else take (nat (int (length s) + k)) s)"

definition truncation_fallback :: "font_bbox \<Rightarrow> int \<Rightarrow> int \<Rightarrow> pystr \<Rightarrow> bool" where
  "truncation_fallback getbbox font_sz max_w content_item =
     (greedy_lines getbbox font_sz max_w content_item = [] \<and> content_item \<noteq> [])"

definition wrap_copy :: "font_bbox \<Rightarrow> int \<Rightarrow> int \<Rightarrow> pystr \<Rightarrow> py_error + pystr list" where
  "wrap_copy getbbox font_sz max_w content_item =
     (let lines = greedy_lines getbbox font_sz max_w content_item
      in if truncation_fallback getbbox font_sz max_w content_item then
           (let d = py_mul (PInt font_sz) (PFloat (fl (6 / 10)))
            in if num_val d = 0 then Inl ZeroDivisionError
               else Inr (lines @ [py_slice_to content_item (py_int (py_truediv (PInt max_w) d))]))
         else Inr lines)"

text \<open>The words a line splits into at single spaces; an empty accumulator holds none.\<close>

definition words_of :: "pystr \<Rightarrow> pystr list" where
  "words_of l = (if l = [] then [] else split_on_space l)"

section \<open>Layout planner: position keys, groups and stacking\<close>

text \<open>
  The element names \<^verbatim>\<open>"logo"\<close>, \<^verbatim>\<open>"copy"\<close> and \<^verbatim>\<open>"cta"\<close> are a datatype. A group entry of
  the source pairs the name with its content; the content plays no part in grouping or
  ordering and is left out. \<^verbatim>\<open>pos_groups_drawing\<close> is a \<^verbatim>\<open>defaultdict(list)\<close>, kept here as
  an association list in insertion order.
\<close>

datatype element = Logo | Copy | Cta

definition elements_for_drawing ::
  "bool \<Rightarrow> bool \<Rightarrow> bool \<Rightarrow> string \<Rightarrow> string \<Rightarrow> string \<Rightarrow> (element \<times> string) list" where
  "elements_for_drawing show_logo show_copy show_cta logo_pos_key copy_pos_key cta_pos_key =
     (if show_logo then [(Logo, logo_pos_key)] else []) @
     (if show_copy then [(Copy, copy_pos_key)] else []) @
     (if show_cta then [(Cta, cta_pos_key)] else [])"

fun group_append :: "(string \<times> element list) list \<Rightarrow> string \<Rightarrow> element \<Rightarrow> (string \<times> element list) list" where
  "group_append [] k n = [(k, [n])]"
| "group_append ((k', ns) # g) k n =
     (if k' = k then (k', ns @ [n]) # g else (k', ns) # group_append g k n)"

definition pos_groups :: "(element \<times> string) list \<Rightarrow> (string \<times> element list) list" where
  "pos_groups els = foldl (\<lambda>g (name, pos_key_item). group_append g pos_key_item name) [] els"

definition stacking_order :: "string \<Rightarrow> element list \<Rightarrow> element list" where
  "stacking_order pos_key_item group_content =
     (if pos_key_item = ''bottom_center'' \<and> length group_content = 2 then
        (let has_copy = (Copy \<in> set group_content);
             has_cta = (Cta \<in> set group_content);
             has_logo = (Logo \<in> set group_content)
         in if has_copy then Copy # (if has_cta then [Cta] else if has_logo then [Logo] else [])
            else if has_cta then Cta # (if has_logo then [Logo] else [])
            else if has_logo then [Logo] else [])
      else (if Logo \<in> set group_content then [Logo] else []) @
           (if Copy \<in> set group_content then [Copy] else []) @
           (if Cta \<in> set group_content then [Cta] else []))"

text \<open>
  The names of \<^verbatim>\<open>el_render_details\<close>: the logo entry first (the first loop, which stops
  at the logo), then the second loop over the group, which skips a logo already present.
\<close>

definition add_detail :: "element list \<Rightarrow> element \<Rightarrow> element list" where
  "add_detail details name =
     (if name = Logo \<and> Logo \<in> set details then details
      else if name = Copy then details @ [Copy]
      else if name = Cta then details @ [Cta]
      else details)"

definition el_render_details :: "element list \<Rightarrow> element list" where
  "el_render_details group_content =
     foldl add_detail (if Logo \<in> set group_content then [Logo] else []) group_content"

fun index_of :: "'a list \<Rightarrow> 'a \<Rightarrow> nat" where
  "index_of [] x = 0"
| "index_of (y # ys) x = (if x = y then 0 else Suc (index_of ys x))"

definition stack_key :: "element list \<Rightarrow> element \<Rightarrow> nat" where
  "stack_key order name = (if name \<in> set order then index_of order name else 99)"

definition el_render_details_sorted :: "string \<Rightarrow> element list \<Rightarrow> element list" where
  "el_render_details_sorted pos_key_item group_content =
     sort_key (stack_key (stacking_order pos_key_item group_content)) (el_render_details group_content)"

definition pct_of :: "int \<Rightarrow> rat \<Rightarrow> int" where
  \<comment> \<open>\<^verbatim>\<open>int(n * c)\<close> for an int \<open>n\<close> and the float literal written \<open>c\<close>\<close>
  "pct_of n c = py_int (py_mul (PInt n) (PFloat (fl c)))"

definition logo_spacing :: "int \<Rightarrow> int \<Rightarrow> int \<Rightarrow> int" where
  "logo_spacing tw th safe_h =
     (if th > tw then max 3 (pct_of safe_h (5 / 100))
      else if tw = th \<or> (tw, th) \<in> set [(300, 250), (336, 280)] then max 3 (pct_of safe_h (6 / 100))
      else max 3 (pct_of safe_h (6 / 100)))"

definition copy_cta_spacing :: "int \<Rightarrow> int \<Rightarrow> int \<Rightarrow> int" where
  "copy_cta_spacing tw th safe_h =
     (if th > tw then max 3 (pct_of safe_h (2 / 100))
      else if tw = th \<or> (tw, th) \<in> set [(300, 250), (336, 280)] then max 3 (pct_of safe_h (3 / 100))
      else max 3 (pct_of safe_h (5 / 100)))"

definition general_element_spacing :: "int \<Rightarrow> int \<Rightarrow> int" where
  "general_element_spacing safe_w safe_h = max 3 (pct_of (min safe_w safe_h) (2 / 100))"

definition spacing_between :: "int \<Rightarrow> int \<Rightarrow> int \<Rightarrow> int \<Rightarrow> element \<Rightarrow> element \<Rightarrow> int" where
  "spacing_between tw th safe_w safe_h curr_type next_type =
     (if (curr_type = Logo \<and> next_type \<in> set [Copy, Cta]) \<or>
         (next_type = Logo \<and> curr_type \<in> set [Copy, Cta])
        then logo_spacing tw th safe_h
      else if (curr_type = Copy \<and> next_type = Cta) \<or> (curr_type = Cta \<and> next_type = Copy)
        then copy_cta_spacing tw th safe_h
      else general_element_spacing safe_w safe_h)"

text \<open>
  The drawing loop: each element is drawn at \<^verbatim>\<open>current_y_offset\<close>, which then advances by
  the element's height and, before a further element, by the spacing of the pair.
\<close>

fun stack_offsets ::
  "int \<Rightarrow> int \<Rightarrow> int \<Rightarrow> int \<Rightarrow> (element \<Rightarrow> int) \<Rightarrow> int \<Rightarrow> element list \<Rightarrow> (element \<times> int) list" where
  "stack_offsets tw th safe_w safe_h el_h current_y_offset [] = []"
| "stack_offsets tw th safe_w safe_h el_h current_y_offset [e] = [(e, current_y_offset)]"
| "stack_offsets tw th safe_w safe_h el_h current_y_offset (e # e' # es) =
     (e, current_y_offset) #
     stack_offsets tw th safe_w safe_h el_h
       (current_y_offset + el_h e + spacing_between tw th safe_w safe_h e e') (e' # es)"

text \<open>
  The position keys of a format, read from the per-orientation dictionaries of the
  request, and the two helpers that interpret a key by substring tests.
\<close>

definition orientation :: "int \<Rightarrow> int \<Rightarrow> string" where
  "orientation tw th = (if tw = th then ''square'' else if th > tw then ''portrait'' else ''landscape'')"

definition dict_get :: "(string \<rightharpoonup> string) \<Rightarrow> string \<Rightarrow> string \<Rightarrow> string" where
  "dict_get d k dflt = (case d k of Some v \<Rightarrow> v | None \<Rightarrow> dflt)"

definition logo_pos_key :: "(string \<rightharpoonup> string) \<Rightarrow> string \<Rightarrow> string" where
  "logo_pos_key logoPositionByOrientation orient =
     dict_get logoPositionByOrientation orient ''top_center''"

definition copy_pos_key :: "(string \<rightharpoonup> string) \<Rightarrow> string \<Rightarrow> string" where
  "copy_pos_key copyPositionByOrientation orient =
     (let k = dict_get copyPositionByOrientation orient ''bottom_center''
      in if k = ''let_ai_choose'' then ''bottom_center'' else k)"

definition cta_pos_key :: "(string \<rightharpoonup> string) \<Rightarrow> string \<Rightarrow> string" where
  "cta_pos_key ctaPositionByOrientation orient =
     (let k = dict_get ctaPositionByOrientation orient ''bottom_center''
      in if k = ''let_ai_choose'' then ''bottom_center'' else k)"

fun starts_with :: "string \<Rightarrow> string \<Rightarrow> bool" where
  "starts_with [] s = True"
| "starts_with (c # cs) [] = False"
| "starts_with (c # cs) (d # ds) = (c = d \<and> starts_with cs ds)"

fun py_in :: "string \<Rightarrow> string \<Rightarrow> bool" where
  "py_in sub [] = (sub = [])"
| "py_in sub (d # ds) = (starts_with sub (d # ds) \<or> py_in sub ds)"

definition get_element_position ::
  "string \<Rightarrow> int \<Rightarrow> int \<Rightarrow> int \<Rightarrow> int \<Rightarrow> int \<Rightarrow> int \<Rightarrow> int \<times> int" where
  "get_element_position pos_key el_w el_h zone_x zone_y zone_w zone_h =
     (let px = (if py_in ''left'' pos_key then zone_x
                else if py_in ''right'' pos_key then zone_x + zone_w - el_w
                else if py_in ''center'' pos_key then zone_x + (zone_w - el_w) div 2
                else zone_x);
          py = (if py_in ''top'' pos_key then zone_y
                else if py_in ''bottom'' pos_key then zone_y + zone_h - el_h
                else if py_in ''middle'' pos_key then zone_y + (zone_h - el_h) div 2
                else zone_y)
      in (px, py))"

definition get_edges_for_pos_key :: "string \<Rightarrow> string set" where
  "get_edges_for_pos_key pos_key =
     (if py_in ''top'' pos_key then {''top''} else {}) \<union>
     (if py_in ''bottom'' pos_key then {''bottom''} else {}) \<union>
     (if py_in ''left'' pos_key then {''left''} else {}) \<union>
     (if py_in ''right'' pos_key then {''right''} else {}) \<union>
     (if pos_key \<in> set [''top_center'', ''bottom_center'']
        then {if py_in ''top'' pos_key then ''top'' else ''bottom''} else {}) \<union>
     (if pos_key \<in> set [''left_middle'', ''right_middle'']
        then {if py_in ''left'' pos_key then ''left'' else ''right''} else {})"

section \<open>Safe area\<close>

definition safe_rect :: "int \<Rightarrow> int \<Rightarrow> int \<times> int \<times> int \<times> int" where
  "safe_rect tw th =
     (if (tw, th) = (1440, 2560) then
        (py_int (PFloat (fl (12734 / 100))), py_int (PFloat (fl (25456 / 100))),
         py_int (PFloat (fl (11821 / 10))), py_int (PFloat (fl (207243 / 100))))
      else
        (let margin_pct = PFloat (fl (7 / 100));
             margin_x = py_int (py_mul (PInt tw) margin_pct);
             margin_y = py_int (py_mul (PInt th) margin_pct)
         in (margin_x, margin_y, tw - 2 * margin_x, th - 2 * margin_y)))"

section \<open>Properties of binary64 rounding\<close>

lemma bitlen_powi:
  assumes "0 < n"
  shows "(2::rat) powi (bitlen n - 1) \<le> of_int n" "of_int n < (2::rat) powi (bitlen n)"
proof -
  from bitlen_bounds[OF assms] have a: "2 ^ nat (bitlen n - 1) \<le> n" and b: "n < 2 ^ nat (bitlen n)" by auto
  have p: "1 \<le> bitlen n" using assms bitlen_bounds[OF assms] by (smt (verit) bitlen_alt_def bitlen_nonneg bitlen_eq_zero_iff)
  have "(2::rat) powi (bitlen n - 1) = 2 ^ nat (bitlen n - 1)" using p by (simp add: power_int_def)
  also have "\<dots> = of_int (2 ^ nat (bitlen n - 1))" by simp
  also have "\<dots> \<le> of_int n" using a by (simp only: of_int_le_iff)
  finally show "(2::rat) powi (bitlen n - 1) \<le> of_int n" .
  have "(2::rat) powi (bitlen n) = of_int (2 ^ nat (bitlen n))" using p by (simp add: power_int_def)
  moreover have "(of_int n :: rat) < of_int (2 ^ nat (bitlen n))" using b by (simp only: of_int_less_iff)
  ultimately show "of_int n < (2::rat) powi (bitlen n)" by simp
qed

lemma ilog2_bounds:
  assumes "0 < x"
  shows "2 powi (ilog2 x) \<le> x" "x < 2 powi (ilog2 x + 1)"
proof -
  show "2 powi (ilog2 x) \<le> x"
  proof (cases "1 \<le> x")
    case True
    then have n: "0 < \<lfloor>x\<rfloor>" by linarith
    have "2 powi (bitlen \<lfloor>x\<rfloor> - 1) \<le> (of_int \<lfloor>x\<rfloor> :: rat)" by (rule bitlen_powi[OF n])
    also have "\<dots> \<le> x" by simp
    finally show ?thesis using True by (simp add: ilog2_def)
  next
    case False
    define y where "y = 1 / x"
    define m where "m = \<lceil>y\<rceil> - 1"
    have y: "1 < y" using False assms by (simp add: y_def)
    then have m: "0 < m" unfolding m_def by linarith
    have "y \<le> of_int m + 1" unfolding m_def by simp
    also have "\<dots> \<le> 2 powi (bitlen m)"
    proof -
      have "of_int m < (2::rat) powi (bitlen m)" by (rule bitlen_powi[OF m])
      moreover have "(2::rat) powi (bitlen m) = of_int (2 ^ nat (bitlen m))"
        using bitlen_nonneg[of m] by (simp add: power_int_def)
      ultimately have "m < 2 ^ nat (bitlen m)" by (simp only: of_int_less_iff)
      then have "m + 1 \<le> 2 ^ nat (bitlen m)" by simp
      then have "(of_int (m + 1) :: rat) \<le> of_int (2 ^ nat (bitlen m))" by (simp only: of_int_le_iff)
      then show ?thesis using \<open>(2::rat) powi (bitlen m) = of_int (2 ^ nat (bitlen m))\<close> by simp
    qed
    finally have "y \<le> 2 powi (bitlen m)" .
    then have "1 / (2 powi (bitlen m)) \<le> 1 / y" using y by (simp add: frac_le)
    then have "2 powi (- bitlen m) \<le> x" using assms by (simp add: y_def power_int_minus_divide)
    then show ?thesis using False by (simp add: ilog2_def m_def y_def)
  qed
  show "x < 2 powi (ilog2 x + 1)"
  proof (cases "1 \<le> x")
    case True
    then have n: "0 < \<lfloor>x\<rfloor>" by linarith
    have "of_int \<lfloor>x\<rfloor> < (2::rat) powi (bitlen \<lfloor>x\<rfloor>)" by (rule bitlen_powi[OF n])
    moreover have "(2::rat) powi (bitlen \<lfloor>x\<rfloor>) = of_int (2 ^ nat (bitlen \<lfloor>x\<rfloor>))"
      using bitlen_nonneg[of "\<lfloor>x\<rfloor>"] by (simp add: power_int_def)
    ultimately have "\<lfloor>x\<rfloor> < 2 ^ nat (bitlen \<lfloor>x\<rfloor>)" by (simp only: of_int_less_iff)
    then have "x < of_int (2 ^ nat (bitlen \<lfloor>x\<rfloor>))" by (simp only: floor_less_iff)
    then show ?thesis using True \<open>(2::rat) powi (bitlen \<lfloor>x\<rfloor>) = of_int (2 ^ nat (bitlen \<lfloor>x\<rfloor>))\<close>
      by (simp add: ilog2_def)
  next
    case False
    define y where "y = 1 / x"
    define m where "m = \<lceil>y\<rceil> - 1"
    have y: "1 < y" using False assms by (simp add: y_def)
    then have m: "0 < m" unfolding m_def by linarith
    have "2 powi (bitlen m - 1) \<le> (of_int m :: rat)" by (rule bitlen_powi[OF m])
    also have "\<dots> < y" unfolding m_def by linarith
    finally have "2 powi (bitlen m - 1) < y" .
    then have "1 / y < 1 / (2 powi (bitlen m - 1))" by (simp add: frac_less2)
    moreover have "1 / y = x" by (simp add: y_def)
    moreover have "(2::rat) powi (- (bitlen m - 1)) = 1 / 2 powi (bitlen m - 1)"
      by (rule power_int_minus_divide)
    ultimately have "x < 2 powi (- (bitlen m - 1))" by simp
    moreover have "ilog2 x + 1 = - (bitlen m - 1)" using False by (simp add: ilog2_def m_def y_def)
    ultimately show ?thesis by simp
  qed
qed

lemma ilog2_unique:
  assumes "0 < x" "2 powi k \<le> x" "x < 2 powi (k + 1)"
  shows "ilog2 x = k"
proof (rule ccontr)
  assume ne: "ilog2 x \<noteq> k"
  show False
  proof (cases "ilog2 x < k")
    case True
    then have "(2::rat) powi (ilog2 x + 1) \<le> 2 powi k" by (intro power_int_increasing) auto
    with ilog2_bounds(2)[OF assms(1)] assms(2) show False by simp
  next
    case False
    with ne have "(2::rat) powi (k + 1) \<le> 2 powi (ilog2 x)" by (intro power_int_increasing) auto
    with ilog2_bounds(1)[OF assms(1)] assms(3) show False by simp
  qed
qed

lemma ilog2_mono:
  assumes "0 < x" "x \<le> y"
  shows "ilog2 x \<le> ilog2 y"
proof (rule ccontr)
  assume "\<not> ilog2 x \<le> ilog2 y"
  then have "(2::rat) powi (ilog2 y + 1) \<le> 2 powi (ilog2 x)" by (intro power_int_increasing) auto
  moreover have "0 < y" using assms by simp
  ultimately show False using ilog2_bounds(1)[OF assms(1)] ilog2_bounds(2)[of y] assms(2) by simp
qed

lemma rne_of_int: "rne (of_int n) = n"
  by (simp add: rne_def)

lemma rne_floor: "\<lfloor>r\<rfloor> \<le> rne r" "rne r \<le> \<lfloor>r\<rfloor> + 1"
  by (simp_all add: rne_def Let_def)

lemma rne_mono:
  assumes "r \<le> s"
  shows "rne r \<le> rne s"
proof (cases "\<lfloor>r\<rfloor> < \<lfloor>s\<rfloor>")
  case True
  then show ?thesis using rne_floor(2)[of r] rne_floor(1)[of s] by linarith
next
  case False
  then have eq: "\<lfloor>r\<rfloor> = \<lfloor>s\<rfloor>" using floor_mono[OF assms] by simp
  then show ?thesis using assms by (auto simp: rne_def Let_def)
qed

lemma rne_nearest:
  assumes "\<bar>r - of_int m\<bar> < 1 / 2"
  shows "rne r = m"
proof (cases "of_int m \<le> r")
  case True
  then have "\<lfloor>r\<rfloor> = m" using assms by (intro floor_unique) auto
  then show ?thesis using assms True by (auto simp: rne_def Let_def)
next
  case False
  then have "\<lfloor>r\<rfloor> = m - 1" using assms by (intro floor_unique) auto
  then show ?thesis using assms False by (auto simp: rne_def Let_def)
qed

lemma rne_nonneg: "0 \<le> r \<Longrightarrow> 0 \<le> rne r"
  using rne_floor(1)[of r] by (simp add: order_trans[OF _ rne_floor(1)])

lemma fl_minus: "fl (- x) = - fl x"
  by (simp add: fl_def Let_def)

lemma fl_nonneg: "0 \<le> x \<Longrightarrow> 0 \<le> fl x"
  by (simp add: fl_def Let_def rne_nonneg)

lemma fl_exponent:
  assumes "0 < x" "- 1074 \<le> e" "e = - 1074 \<or> 2 powi (e + 52) \<le> x" "x < 2 powi (e + 53)"
  shows "max (- 1074) (ilog2 x - 52) = e"
proof (cases "2 powi (e + 52) \<le> x")
  case True
  have "ilog2 x = e + 52" using assms(1) True assms(4) by (intro ilog2_unique) (simp_all add: add.commute)
  then show ?thesis using assms(2) by simp
next
  case False
  then have e: "e = - 1074" using assms(3) by simp
  have "ilog2 x < e + 52"
  proof (rule ccontr)
    assume "\<not> ilog2 x < e + 52"
    then have "(2::rat) powi (e + 52) \<le> 2 powi (ilog2 x)" by (intro power_int_increasing) auto
    with ilog2_bounds(1)[OF assms(1)] False show False by simp
  qed
  then show ?thesis using e by simp
qed

lemma fl_eqI:
  assumes "0 < x" "- 1074 \<le> e" "e = - 1074 \<or> 2 powi (e + 52) \<le> x" "x < 2 powi (e + 53)"
    and "\<bar>x / 2 powi e - of_int m\<bar> < 1 / 2"
  shows "fl x = of_int m * 2 powi e"
  using assms(1) fl_exponent[OF assms(1-4)] rne_nearest[OF assms(5)]
  by (simp add: fl_def Let_def)

lemma fl_pos_mono:
  assumes "0 < x" "x \<le> y"
  shows "fl x \<le> fl y"
proof -
  define ex where "ex = max (- 1074) (ilog2 x - 52)"
  define ey where "ey = max (- 1074) (ilog2 y - 52)"
  have y: "0 < y" using assms by simp
  have fx: "fl x = of_int (rne (x / 2 powi ex)) * 2 powi ex"
    using assms(1) by (simp add: fl_def Let_def ex_def)
  have fy: "fl y = of_int (rne (y / 2 powi ey)) * 2 powi ey"
    using y by (simp add: fl_def Let_def ey_def)
  have le: "ex \<le> ey" using ilog2_mono[OF assms] by (simp add: ex_def ey_def)
  show ?thesis
  proof (cases "ex = ey")
    case True
    have "x / 2 powi ey \<le> y / 2 powi ey" using assms(2) by (simp add: divide_right_mono)
    then have "rne (x / 2 powi ey) \<le> rne (y / 2 powi ey)" by (rule rne_mono)
    then have "(of_int (rne (x / 2 powi ey)) :: rat) \<le> of_int (rne (y / 2 powi ey))" by simp
    then show ?thesis unfolding fx fy True by (simp add: mult_right_mono)
  next
    case False
    with le have lt: "ex < ey" by simp
    then have ey: "ey = ilog2 y - 52" by (auto simp: ex_def ey_def max_def split: if_splits)
    have "x < 2 powi (ilog2 x + 1)" by (rule ilog2_bounds(2)[OF assms(1)])
    also have "\<dots> \<le> 2 powi (ex + 53)" by (intro power_int_increasing) (auto simp: ex_def)
    finally have "x / 2 powi ex < 2 powi (ex + 53) / 2 powi ex" by (simp add: divide_strict_right_mono)
    also have "\<dots> = 2 ^ 53" by (simp add: power_int_add)
    finally have "x / 2 powi ex \<le> of_int (2 ^ 53)" by simp
    then have "rne (x / 2 powi ex) \<le> rne (of_int (2 ^ 53))" by (rule rne_mono)
    then have "rne (x / 2 powi ex) \<le> 2 ^ 53" by (simp only: rne_of_int)
    then have "(of_int (rne (x / 2 powi ex)) :: rat) \<le> of_int (2 ^ 53)" by (simp only: of_int_le_iff)
    then have "fl x \<le> 2 ^ 53 * 2 powi ex" unfolding fx by (simp add: mult_right_mono)
    also have "\<dots> = 2 powi (ex + 53)" by (simp add: power_int_add)
    also have "\<dots> \<le> 2 powi (ey + 52)" using lt by (intro power_int_increasing) auto
    finally have 1: "fl x \<le> 2 powi (ey + 52)" .
    have "2 powi (ey + 52) \<le> y" using ilog2_bounds(1)[OF y] by (simp add: ey)
    then have "2 powi (ey + 52) / 2 powi ey \<le> y / 2 powi ey" by (simp add: divide_right_mono)
    moreover have "(2::rat) powi (ey + 52) / 2 powi ey = of_int (2 ^ 52)" by (simp add: power_int_add)
    ultimately have "of_int (2 ^ 52) \<le> y / 2 powi ey" by simp
    then have "rne (of_int (2 ^ 52)) \<le> rne (y / 2 powi ey)" by (rule rne_mono)
    then have "2 ^ 52 \<le> rne (y / 2 powi ey)" by (simp only: rne_of_int)
    then have "(of_int (2 ^ 52) :: rat) \<le> of_int (rne (y / 2 powi ey))" by (simp only: of_int_le_iff)
    then have "2 ^ 52 * 2 powi ey \<le> fl y" unfolding fy by (simp add: mult_right_mono)
    moreover have "(2::rat) ^ 52 * 2 powi ey = 2 powi (ey + 52)" by (simp add: power_int_add)
    ultimately have "2 powi (ey + 52) \<le> fl y" by simp
    with 1 show ?thesis by simp
  qed
qed

lemma fl_mono:
  assumes "x \<le> y"
  shows "fl x \<le> fl y"
proof -
  consider "0 < x" | "x \<le> 0" "0 \<le> y" | "y < 0" by linarith
  then show ?thesis
  proof cases
    case 1
    then show ?thesis using assms by (rule fl_pos_mono)
  next
    case 2
    have "fl x \<le> 0" using fl_nonneg[of "- x"] 2(1) by (simp add: fl_minus)
    also have "0 \<le> fl y" using 2(2) by (rule fl_nonneg)
    finally show ?thesis .
  next
    case 3
    have "fl (- y) \<le> fl (- x)" using 3 assms by (intro fl_pos_mono) auto
    then show ?thesis by (simp add: fl_minus)
  qed
qed

lemma fl_of_int:
  assumes "\<bar>n\<bar> \<le> 2 ^ 53"
  shows "fl (of_int n) = of_int n"
proof -
  have pos: "fl (of_int k) = of_int k" if k: "0 < k" "k \<le> 2 ^ 53" for k :: int
  proof -
    define e where "e = max (- 1074) (ilog2 (of_int k) - 52)"
    have kr: "(0::rat) < of_int k" using k by simp
    have "(2::rat) powi 0 \<le> of_int k" using k by simp
    then have "\<not> ilog2 (of_int k) < 0"
      using ilog2_bounds(2)[OF kr] power_int_increasing[of "ilog2 (of_int k) + 1" 0 "2::rat"] by auto
    then have lo: "0 \<le> ilog2 (of_int k)" by simp
    have "(of_int k :: rat) \<le> of_int (2 ^ 53)" using k(2) by (simp only: of_int_le_iff)
    then have "(of_int k :: rat) \<le> 2 powi 53" by simp
    then have "\<not> 53 < ilog2 (of_int k)"
      using ilog2_bounds(1)[OF kr] power_int_strict_increasing[of 53 "ilog2 (of_int k)" "2::rat"] by auto
    then have hi: "ilog2 (of_int k) \<le> 53" by simp
    show ?thesis
    proof (cases "ilog2 (of_int k) = 53")
      case True
      have "(2::rat) powi 53 \<le> of_int k" using ilog2_bounds(1)[OF kr] True by simp
      with \<open>(of_int k :: rat) \<le> 2 powi 53\<close> have "(of_int k :: rat) = of_int (2 ^ 53)" by simp
      then have keq: "k = 2 ^ 53" by (simp only: of_int_eq_iff)
      have "fl (of_int k) = of_int (rne (of_int k / 2 powi 1)) * 2 powi 1"
        using kr True by (simp add: fl_def Let_def)
      also have "(of_int k :: rat) / 2 powi 1 = of_int (2 ^ 52)" by (simp add: keq)
      also have "rne (of_int (2 ^ 52)) = 2 ^ 52" by (rule rne_of_int)
      finally show ?thesis by (simp add: keq)
    next
      case False
      with hi have e0: "e \<le> 0" "e = ilog2 (of_int k) - 52" using lo by (auto simp: e_def)
      have "(of_int k :: rat) / 2 powi e = of_int k * 2 powi (- e)"
        by (simp add: power_int_minus field_simps)
      also have "\<dots> = of_int (k * 2 ^ nat (- e))" using e0 by (simp add: power_int_def)
      finally have "rne (of_int k / 2 powi e) = k * 2 ^ nat (- e)" by (simp only: rne_of_int)
      moreover have "fl (of_int k) = of_int (rne (of_int k / 2 powi e)) * 2 powi e"
        using kr by (simp add: fl_def Let_def e_def)
      ultimately have "fl (of_int k) = of_int (k * 2 ^ nat (- e)) * 2 powi e" by simp
      also have "\<dots> = of_int k * (2 powi (- e) * 2 powi e)" using e0 by (simp add: power_int_def)
      also have "2 powi (- e) * 2 powi e = (1::rat)" by (simp add: power_int_minus)
      finally show ?thesis by simp
    qed
  qed
  consider "n = 0" | "0 < n" | "n < 0" by linarith
  then show ?thesis
  proof cases
    case 1
    then show ?thesis by (simp add: fl_def)
  next
    case 2
    then show ?thesis using assms by (intro pos) auto
  next
    case 3
    then have "fl (of_int (- n)) = of_int (- n)" using assms by (intro pos) auto
    then show ?thesis by (simp add: fl_minus)
  qed
qed

lemma fl_numeral:
  "numeral k \<le> (9007199254740992::int) \<Longrightarrow> fl (numeral k) = numeral k"
  using fl_of_int [of "numeral k"] by simp

lemma fl_one: "fl 1 = 1"
  using fl_of_int [of 1] by simp

lemma py_trunc_nonneg: "0 \<le> r \<Longrightarrow> 0 \<le> py_trunc r"
  by (simp add: py_trunc_def)

lemma py_trunc_le: "r \<le> of_int n \<Longrightarrow> py_trunc r \<le> n"
  by (auto simp: py_trunc_def floor_le_iff) linarith

lemma floor_rat_numeral:
  "\<lfloor>(numeral a :: rat) / numeral b\<rfloor> = numeral a div numeral b"
  using floor_divide_of_int_eq [of "numeral a" "numeral b", where ?'a = rat] by simp

lemma ilog2_scale:
  assumes "0 < x"
  shows "ilog2 (x * 2 powi e) = ilog2 x + e"
proof (rule ilog2_unique)
  show "0 < x * 2 powi e" using assms by simp
  have "2 powi (ilog2 x + e) = 2 powi (ilog2 x) * (2::rat) powi e" by (simp add: power_int_add)
  also have "\<dots> \<le> x * 2 powi e" using ilog2_bounds(1) [OF assms] by (simp add: mult_right_mono)
  finally show "2 powi (ilog2 x + e) \<le> x * 2 powi e" .
  have "x * 2 powi e < 2 powi (ilog2 x + 1) * (2::rat) powi e"
    using ilog2_bounds(2) [OF assms] by (simp add: mult_strict_right_mono)
  also have "\<dots> = 2 powi (ilog2 x + e + 1)" by (simp add: power_int_add)
  finally show "x * 2 powi e < 2 powi (ilog2 x + e + 1)" .
qed

lemma fl_dyadic:
  assumes "\<bar>m\<bar> < 2 ^ 53" "- 1074 \<le> e"
  shows "fl (of_int m * 2 powi e) = of_int m * 2 powi e"
proof -
  have pos: "fl (of_int k * 2 powi e) = of_int k * 2 powi e" if k: "0 < k" "k < 2 ^ 53" for k :: int
  proof -
    have kr: "(0::rat) < of_int k" using k by simp
    define x where "x = (of_int k :: rat) * 2 powi e"
    have x: "0 < x" using kr by (simp add: x_def)
    have "(of_int k :: rat) < of_int (2 ^ 53)" using k(2) by (simp only: of_int_less_iff)
    then have "(of_int k :: rat) < 2 powi 53" by simp
    then have "\<not> 53 \<le> ilog2 (of_int k)"
      using ilog2_bounds(1) [OF kr] power_int_increasing [of 53 "ilog2 (of_int k)" "2::rat"] by auto
    then have hi: "ilog2 (of_int k) \<le> 52" by simp
    define ex where "ex = max (- 1074) (ilog2 x - 52)"
    have "ilog2 x = ilog2 (of_int k) + e" unfolding x_def by (rule ilog2_scale [OF kr])
    then have le: "ex \<le> e" using hi assms(2) by (simp add: ex_def)
    have "x / 2 powi ex = of_int k * 2 powi (e - ex)"
      by (simp add: x_def power_int_diff)
    also have "\<dots> = of_int (k * 2 ^ nat (e - ex))" using le by (simp add: power_int_def)
    finally have "rne (x / 2 powi ex) = k * 2 ^ nat (e - ex)" by (simp only: rne_of_int)
    moreover have "fl x = of_int (rne (x / 2 powi ex)) * 2 powi ex"
      using x by (simp add: fl_def Let_def ex_def)
    ultimately have "fl x = of_int (k * 2 ^ nat (e - ex)) * 2 powi ex" by simp
    also have "\<dots> = of_int k * (2 powi (e - ex) * 2 powi ex)" using le by (simp add: power_int_def)
    also have "2 powi (e - ex) * 2 powi ex = (2::rat) powi e" by (simp flip: power_int_add)
    finally show ?thesis by (simp add: x_def)
  qed
  consider "m = 0" | "0 < m" | "m < 0" by linarith
  then show ?thesis
  proof cases
    case 1
    then show ?thesis by (simp add: fl_def)
  next
    case 2
    then show ?thesis using assms by (intro pos) auto
  next
    case 3
    then have "fl (of_int (- m) * 2 powi e) = of_int (- m) * 2 powi e" using assms by (intro pos) auto
    then show ?thesis using fl_minus [of "of_int m * 2 powi e"] by simp
  qed
qed

lemma py_trunc_minus: "py_trunc (- r) = - py_trunc r"
  by (cases "r = 0") (auto simp: py_trunc_def)

lemma py_trunc_ge: "0 \<le> n \<Longrightarrow> of_int n \<le> r \<Longrightarrow> n \<le> py_trunc r"
  by (auto simp: py_trunc_def le_floor_iff)

section \<open>Properties of the compositor\<close>

lemma scaled_dim_ge: "t \<le> scaled_dim t i fs"
  by (simp add: scaled_dim_def)

lemma no_hero_canvas_eq:
  "no_hero_canvas src tw th canvas =
     (let rw = py_int (py_mul (PInt (fst (image_size src)))
                  (scale_to_cover_canvas (fst (image_size src)) (snd (image_size src)) tw th));
          rh = py_int (py_mul (PInt (snd (image_size src)))
                  (scale_to_cover_canvas (fst (image_size src)) (snd (image_size src)) tw th))
      in if rw < 1 \<or> rh < 1 then Inl ValueError
         else Inr (Paste canvas (Crop (Resize src rw rh)
                (fst (cover_crop_box rw rh tw th)) (fst (snd (cover_crop_box rw rh tw th)))
                (fst (snd (snd (cover_crop_box rw rh tw th))))
                (snd (snd (snd (cover_crop_box rw rh tw th))))) 0 0))"
  by (simp add: no_hero_canvas_def image_resize_def Let_def split: prod.splits)

lemma no_hero_result:
  assumes "image_size src = (iw, ih)" "iw \<noteq> 0" "ih \<noteq> 0"
    and "hero = None \<or> aw \<le> 0 \<or> ah \<le> 0 \<or>
         (\<exists>x1 y1 x2 y2. hero = Some (x1, y1, x2, y2) \<and> (x2 \<le> x1 \<or> y2 \<le> y1))"
    and "rw = py_int (py_mul (PInt iw) (scale_to_cover_canvas iw ih tw th))"
    and "rh = py_int (py_mul (PInt ih) (scale_to_cover_canvas iw ih tw th))"
  shows "create_base_canvas_with_hero src tw th hero ax ay aw ah p bg =
       (if tw < 0 \<or> th < 0 \<or> rw < 1 \<or> rh < 1 then Inl ValueError
        else Inr (Paste (New tw th bg) (Crop (Resize src rw rh)
                (fst (cover_crop_box rw rh tw th)) (fst (snd (cover_crop_box rw rh tw th)))
                (fst (snd (snd (cover_crop_box rw rh tw th))))
                (snd (snd (snd (cover_crop_box rw rh tw th))))) 0 0))"
proof (cases hero)
  case None
  then show ?thesis using assms(1,2,3,5,6)
    by (simp add: image_new_def no_hero_canvas_eq Let_def)
next
  case (Some box)
  obtain x1 y1 x2 y2 where box: "box = (x1, y1, x2, y2)" by (cases box) auto
  have "aw \<le> 0 \<or> ah \<le> 0 \<or> x2 \<le> x1 \<or> y2 \<le> y1" using assms(4) Some box by auto
  then show ?thesis using Some box assms(1,2,3,5,6)
    by (auto simp: image_new_def no_hero_canvas_eq Let_def)
qed

lemma hero_result:
  assumes "image_size src = (iw, ih)" "iw \<noteq> 0" "ih \<noteq> 0" "0 < aw" "0 < ah" "x1 < x2" "y1 < y2"
    and "fs = final_scale iw ih tw th aw ah p (x2 - x1) (y2 - y1)"
    and "sw = scaled_dim tw iw fs" "sh = scaled_dim th ih fs"
    and "cx = crop_coord x1 (x2 - x1) ax aw fs sw tw" "cy = crop_coord y1 (y2 - y1) ay ah fs sh th"
  shows "create_base_canvas_with_hero src tw th (Some (x1, y1, x2, y2)) ax ay aw ah p bg =
       (if tw < 0 \<or> th < 0 \<or> sw < 1 \<or> sh < 1 then Inl ValueError
        else Inr (Paste (New tw th bg)
               (Crop (Resize src sw sh) (py_int cx) (py_int cy)
                  (py_int (py_add cx (PInt tw))) (py_int (py_add cy (PInt th)))) 0 0))"
  using assms by (simp add: image_new_def image_resize_def hero_canvas_def Let_def)


text \<open>
  C2 (regime equivalence): with a hero box of zero or negative width or height, the
  compositor returns the same canvas as with no hero box at all, whatever the source,
  the target size, the hero area, the prominence and the background colour are.
\<close>

theorem degenerate_hero_is_no_hero:
  "x2 \<le> x1 \<or> y2 \<le> y1 \<Longrightarrow>
   create_base_canvas_with_hero src tw th (Some (x1, y1, x2, y2)) ax ay aw ah p bg =
   create_base_canvas_with_hero src tw th None ax ay aw ah p bg"
  by (auto split: sum.splits)

theorem degenerate_hero_is_no_hero_witness:
  "((5::int) \<le> 5 \<or> (9::int) \<le> 2) \<and>
   create_base_canvas_with_hero (Given () 800 600) 970 250 (Some (5, 2, 5, 9)) 67 17 836 216
     default_prominence default_bg_color =
   create_base_canvas_with_hero (Given () 800 600) 970 250 None 67 17 836 216
     default_prominence default_bg_color"
  using degenerate_hero_is_no_hero [of 5 5 9 2 "Given () 800 600" 970 250 67 17 836 216
      default_prominence default_bg_color]
  by simp

section \<open>Rounding of the values of a worked example\<close>

lemma fl_val_1: "fl (97 / 80) = 2730307274093363 / 2251799813685248"
proof -
  have "fl (97 / 80) = of_int 5460614548186726 * 2 powi (- 52)"
    by (rule fl_eqI) simp_all
  then show ?thesis by simp
qed

lemma fl_val_2: "fl (5 / 12) = 7505999378950827 / 18014398509481984"
proof -
  have "fl (5 / 12) = of_int 7505999378950827 * 2 powi (- 54)"
    by (rule fl_eqI) simp_all
  then show ?thesis by simp
qed

lemma fl_val_3: "fl (68257681852334075 / 70368744177664) = 8532210231541759 / 8796093022208"
proof -
  have "fl (68257681852334075 / 70368744177664) = of_int 8532210231541759 * 2 powi (- 43)"
    by (rule fl_eqI) simp_all
  then show ?thesis by simp
qed

lemma fl_val_4: "fl (204773045557002225 / 281474976710656) = 1455 / 2"
proof -
  have "fl (204773045557002225 / 281474976710656) = of_int 6399157673656320 * 2 powi (- 43)"
    by (rule fl_eqI) simp_all
  then show ?thesis by simp
qed

lemma fl_val_5: "fl (7 / 10) = 3152519739159347 / 4503599627370496"
proof -
  have "fl (7 / 10) = of_int 6305039478318694 * 2 powi (- 53)"
    by (rule fl_eqI) simp_all
  then show ?thesis by simp
qed

lemma fl_val_6: "fl (658876625484303523 / 1125899906842624) = 5147473636596121 / 8796093022208"
proof -
  have "fl (658876625484303523 / 1125899906842624) = of_int 5147473636596121 * 2 powi (- 43)"
    by (rule fl_eqI) simp_all
  then show ?thesis by simp
qed

lemma fl_val_7: "fl (5147473636596121 / 1759218604441600) = 6588766254843035 / 2251799813685248"
proof -
  have "fl (5147473636596121 / 1759218604441600) = of_int 6588766254843035 * 2 powi (- 51)"
    by (rule fl_eqI) simp_all
  then show ?thesis by simp
qed

lemma fl_val_8: "fl (85118032957302369 / 562949953421312) = 2659938529915699 / 17592186044416"
proof -
  have "fl (85118032957302369 / 562949953421312) = of_int 5319877059831398 * 2 powi (- 45)"
    by (rule fl_eqI) simp_all
  then show ?thesis by simp
qed

lemma fl_val_9: "fl (2659938529915699 / 5277655813324800) = 1134907106097365 / 2251799813685248"
proof -
  have "fl (2659938529915699 / 5277655813324800) = of_int 4539628424389460 * 2 powi (- 53)"
    by (rule fl_eqI) simp_all
  then show ?thesis by simp
qed

lemma fl_val_10: "fl (68257681852334075 / 281474976710656) = 8532210231541759 / 35184372088832"
proof -
  have "fl (68257681852334075 / 281474976710656) = of_int 8532210231541759 * 2 powi (- 45)"
    by (rule fl_eqI) simp_all
  then show ?thesis by simp
qed

lemma fl_val_11: "fl ((- (8532210231541761 / 35184372088832))) = (- (8532210231541761 / 35184372088832))"
proof -
  have "fl (8532210231541761 / 35184372088832) = of_int 8532210231541761 * 2 powi (- 45)"
    by (rule fl_eqI) simp_all
  then show ?thesis by (simp add: fl_minus)
qed

lemma fl_val_12: "fl (341288409261670375 / 1125899906842624) = 2425 / 8"
proof -
  have "fl (341288409261670375 / 1125899906842624) = of_int 5332631394713600 * 2 powi (- 44)"
    by (rule fl_eqI) simp_all
  then show ?thesis by simp
qed

lemma fl_val_13: "fl (1425 / 8) = 1425 / 8"
proof -
  have "fl (1425 / 8) = of_int 6267216278323200 * 2 powi (- 45)"
    by (rule fl_eqI) simp_all
  then show ?thesis by simp
qed

lemma fl_val_14: "fl (3425 / 8) = 3425 / 8"
proof -
  have "fl (3425 / 8) = of_int 7531654650265600 * 2 powi (- 44)"
    by (rule fl_eqI) simp_all
  then show ?thesis by simp
qed




lemma ev_cover: "scale_to_cover_canvas 800 600 970 250 = PFloat (2730307274093363 / 2251799813685248)"
  by (simp add: scale_to_cover_canvas_def py_max_def fl_val_1 fl_val_2)

lemma ev_rw: "py_int (py_mul (PInt 800) (PFloat (2730307274093363 / 2251799813685248))) = 969"
  by (simp add: fl_numeral fl_val_3 py_trunc_def floor_rat_numeral)

lemma ev_rh: "py_int (py_mul (PInt 600) (PFloat (2730307274093363 / 2251799813685248))) = 727"
  by (simp add: fl_numeral fl_val_4 py_trunc_def floor_rat_numeral)

lemma ev_box: "cover_crop_box 969 727 970 250 = (0, 238, 969, 488)"
  by (simp add: cover_crop_box_def)

lemma ev_no_hero: "create_base_canvas_with_hero (Given () 800 600) 970 250 None 67 17 836 216
       default_prominence default_bg_color =
     Inr (Paste (New 970 250 default_bg_color) (Crop (Resize (Given () 800 600) 969 727) 0 238 969 488) 0 0)"
  by (simp add: image_new_def no_hero_canvas_eq ev_cover ev_rw ev_rh ev_box
      del: py_mul.simps py_int.simps)



lemma ev_p: "default_prominence = PFloat (3152519739159347 / 4503599627370496)"
  by (simp add: default_prominence_def fl_val_5)

lemma ev_sfh: "scale_for_hero 836 216 (PFloat (3152519739159347 / 4503599627370496)) 200 300 =
    PFloat (1134907106097365 / 2251799813685248)"
  by (simp add: scale_for_hero_def py_min_def fl_numeral fl_val_6 fl_val_7 fl_val_8 fl_val_9)

lemma ev_fs: "final_scale 800 600 970 250 836 216 default_prominence 200 300 =
    PFloat (2730307274093363 / 2251799813685248)"
  by (simp add: final_scale_def ev_p ev_sfh ev_cover py_max_def)

lemma ev_sw: "scaled_dim 970 800 (PFloat (2730307274093363 / 2251799813685248)) = 970"
  by (simp add: scaled_dim_def ev_rw del: py_mul.simps py_int.simps)

lemma ev_sh: "scaled_dim 250 600 (PFloat (2730307274093363 / 2251799813685248)) = 727"
  by (simp add: scaled_dim_def ev_rh del: py_mul.simps py_int.simps)

lemma ev_cx: "crop_coord 100 200 67 836 (PFloat (2730307274093363 / 2251799813685248)) 970 970 = PInt 0"
  by (simp add: crop_coord_def py_max_def py_min_def fl_numeral fl_val_10 fl_val_11)

lemma ev_cy: "crop_coord 100 300 17 216 (PFloat (2730307274093363 / 2251799813685248)) 727 250 =
    PFloat (1425 / 8)"
  by (simp add: crop_coord_def py_max_def py_min_def fl_numeral fl_val_12 fl_val_13)

lemma ev_hero: "create_base_canvas_with_hero (Given () 800 600) 970 250 (Some (100, 100, 300, 400))
       67 17 836 216 default_prominence default_bg_color =
     Inr (Paste (New 970 250 default_bg_color)
       (Crop (Resize (Given () 800 600) 970 727) 0 178 970 428) 0 0)"
  using hero_result [where src = "Given () 800 600" and iw = 800 and ih = 600 and aw = 836
      and ah = 216 and ?x1.0 = 100 and ?x2.0 = 300 and ?y1.0 = 100 and ?y2.0 = 400 and tw = 970
      and th = 250 and p = default_prominence and ax = 67 and ay = 17 and bg = default_bg_color,
      OF _ _ _ _ _ _ _ refl refl refl refl refl]
  by (simp add: ev_fs ev_sw ev_sh ev_cx ev_cy fl_numeral fl_val_14 py_trunc_def floor_rat_numeral
      del: create_base_canvas_with_hero.simps)

section \<open>Scale and crop of the compositor\<close>

lemma cover_value:
  "0 < iw \<Longrightarrow> 0 < ih \<Longrightarrow>
   num_val (scale_to_cover_canvas iw ih tw th) =
     max (fl (of_int tw / of_int iw)) (fl (of_int th / of_int ih))"
  by (auto simp: scale_to_cover_canvas_def py_max_def)

lemma fl_max: "max (fl a) (fl b) = fl (max a b)"
  by (metis fl_mono max.absorb1 max.absorb2 linear max.commute)

text \<open>
  C1 (cover guarantee) does not hold for the exact ratios. For an 800 x 600 source and a
  970 x 250 canvas the cover scale of the code is the float nearest to 97/80, which lies
  below \<open>max (970/800) (250/600) = 97/80\<close>; the scale of the usable-hero regime is the
  same float for the hero box \<open>(100, 100, 300, 400)\<close> in the area of 836 x 216. The
  no-hero regime then resizes the source to 969 x 727, less than the canvas is wide.
\<close>

theorem cover_scale_below_exact_ratio:
  "num_val (scale_to_cover_canvas 800 600 970 250) < max (970 / 800) (250 / 600) \<and>
   num_val (final_scale 800 600 970 250 836 216 default_prominence 200 300)
     < max (970 / 800) (250 / 600) \<and>
   create_base_canvas_with_hero (Given () 800 600) 970 250 None 67 17 836 216
       default_prominence default_bg_color =
     Inr (Paste (New 970 250 default_bg_color)
       (Crop (Resize (Given () 800 600) 969 727) 0 238 969 488) 0 0)"
  by (simp add: ev_no_hero ev_fs ev_cover del: create_base_canvas_with_hero.simps)

text \<open>
  C1 (cover guarantee), as the code has it: for a source of positive width and height,
  the scale of the no-hero regime is the cover scale in floats, the larger of the two
  float quotients \<^verbatim>\<open>tw / iw\<close> and \<^verbatim>\<open>th / ih\<close> (equally, the larger exact ratio rounded
  to the nearest float). The scale of the usable-hero regime is at least that cover scale
  and at least the hero-prominence scale, and is one of the two: hero prominence can
  raise the scale above cover and never lowers it. Whenever the compositor returns, the
  canvas holds a crop of the source resized with that scale: to
  \<^verbatim>\<open>(int(iw * scale), int(ih * scale))\<close> with the cover scale when there is no usable hero,
  and to these two values for the final scale, each raised to the target size at least,
  when there is one.
\<close>

theorem cover_scale_guarantee:
  assumes "image_size src = (iw, ih)" "0 < iw" "0 < ih"
    and "cs = scale_to_cover_canvas iw ih tw th"
    and "fs = final_scale iw ih tw th aw ah p (x2 - x1) (y2 - y1)"
  shows "num_val cs = max (fl (of_int tw / of_int iw)) (fl (of_int th / of_int ih))
     \<and> num_val cs = fl (max (of_int tw / of_int iw) (of_int th / of_int ih))
     \<and> num_val cs \<le> num_val fs
     \<and> num_val (scale_for_hero aw ah p (x2 - x1) (y2 - y1)) \<le> num_val fs
     \<and> (fs = cs \<or> fs = scale_for_hero aw ah p (x2 - x1) (y2 - y1))
     \<and> (\<forall>img. create_base_canvas_with_hero src tw th None ax ay aw ah p bg = Inr img \<longrightarrow>
          (\<exists>l u r b. img = Paste (New tw th bg)
             (Crop (Resize src (py_int (py_mul (PInt iw) cs)) (py_int (py_mul (PInt ih) cs)))
                l u r b) 0 0))
     \<and> (\<forall>img. create_base_canvas_with_hero src tw th (Some (x1, y1, x2, y2)) ax ay aw ah p bg
                = Inr img \<longrightarrow>
          (\<exists>l u r b. img = Paste (New tw th bg)
             (Crop (Resize src
                (if 0 < aw \<and> 0 < ah \<and> x1 < x2 \<and> y1 < y2
                 then max tw (py_int (py_mul (PInt iw) fs)) else py_int (py_mul (PInt iw) cs))
                (if 0 < aw \<and> 0 < ah \<and> x1 < x2 \<and> y1 < y2
                 then max th (py_int (py_mul (PInt ih) fs)) else py_int (py_mul (PInt ih) cs)))
                l u r b) 0 0))"
proof -
  have nz: "iw \<noteq> 0" "ih \<noteq> 0" using assms(2,3) by simp_all
  have 1: "num_val cs = max (fl (of_int tw / of_int iw)) (fl (of_int th / of_int ih))"
    unfolding assms(4) using assms(2,3) by (rule cover_value)
  have 2: "num_val cs = fl (max (of_int tw / of_int iw) (of_int th / of_int ih))"
    using 1 by (simp only: fl_max)
  have 3: "num_val cs \<le> num_val fs"
    by (simp add: assms(4,5) final_scale_def py_max_def)
  have 4: "num_val (scale_for_hero aw ah p (x2 - x1) (y2 - y1)) \<le> num_val fs"
    by (simp add: assms(5) final_scale_def py_max_def)
  have 5: "fs = cs \<or> fs = scale_for_hero aw ah p (x2 - x1) (y2 - y1)"
    by (simp add: assms(4,5) final_scale_def py_max_def)
  have 6: "\<exists>l u r b. img = Paste (New tw th bg)
             (Crop (Resize src (py_int (py_mul (PInt iw) cs)) (py_int (py_mul (PInt ih) cs)))
                l u r b) 0 0"
    if "create_base_canvas_with_hero src tw th None ax ay aw ah p bg = Inr img" for img
    using that
      no_hero_result [OF assms(1) nz, where hero = None and aw = aw and ah = ah and tw = tw
        and th = th and ax = ax and ay = ay and p = p and bg = bg, OF _ refl refl]
    unfolding assms(4) by (auto split: if_splits)
  have 7: "\<exists>l u r b. img = Paste (New tw th bg)
             (Crop (Resize src
                (if 0 < aw \<and> 0 < ah \<and> x1 < x2 \<and> y1 < y2
                 then max tw (py_int (py_mul (PInt iw) fs)) else py_int (py_mul (PInt iw) cs))
                (if 0 < aw \<and> 0 < ah \<and> x1 < x2 \<and> y1 < y2
                 then max th (py_int (py_mul (PInt ih) fs)) else py_int (py_mul (PInt ih) cs)))
                l u r b) 0 0"
    if r: "create_base_canvas_with_hero src tw th (Some (x1, y1, x2, y2)) ax ay aw ah p bg = Inr img"
    for img
  proof (cases "0 < aw \<and> 0 < ah \<and> x1 < x2 \<and> y1 < y2")
    case True
    then have u: "0 < aw" "0 < ah" "x1 < x2" "y1 < y2" by simp_all
    show ?thesis
      using r hero_result [OF assms(1) nz u assms(5) refl refl refl refl, of ax ay bg] True
      by (auto simp: scaled_dim_def split: if_splits)
  next
    case False
    then have d: "Some (x1, y1, x2, y2) = None \<or> aw \<le> 0 \<or> ah \<le> 0 \<or>
         (\<exists>a b c d. Some (x1, y1, x2, y2) = Some (a, b, c, d) \<and> (c \<le> a \<or> d \<le> b))"
      by auto
    show ?thesis
      using r no_hero_result [OF assms(1) nz d refl refl, of tw th ax ay p bg] False
      unfolding assms(4) by (auto split: if_splits)
  qed
  from 1 2 3 4 5 6 7 show ?thesis by blast
qed

theorem cover_scale_guarantee_witness:
  "image_size (Given () 800 600) = (800, 600) \<and> (0::int) < 800 \<and> (0::int) < 600 \<and>
   num_val (scale_to_cover_canvas 800 600 970 250) = fl (max (970 / 800) (250 / 600)) \<and>
   create_base_canvas_with_hero (Given () 800 600) 970 250 None 67 17 836 216
       default_prominence default_bg_color =
     Inr (Paste (New 970 250 default_bg_color)
       (Crop (Resize (Given () 800 600) 969 727) 0 238 969 488) 0 0) \<and>
   py_int (py_mul (PInt 800) (scale_to_cover_canvas 800 600 970 250)) = 969 \<and>
   py_int (py_mul (PInt 600) (scale_to_cover_canvas 800 600 970 250)) = 727 \<and>
   create_base_canvas_with_hero (Given () 800 600) 970 250 (Some (100, 100, 300, 400))
       67 17 836 216 default_prominence default_bg_color =
     Inr (Paste (New 970 250 default_bg_color)
       (Crop (Resize (Given () 800 600) 970 727) 0 178 970 428) 0 0) \<and>
   max 970 (py_int (py_mul (PInt 800) (final_scale 800 600 970 250 836 216 default_prominence 200 300))) = 970 \<and>
   max 250 (py_int (py_mul (PInt 600) (final_scale 800 600 970 250 836 216 default_prominence 200 300))) = 727"
  using cover_scale_guarantee [where src = "Given () 800 600" and iw = 800 and ih = 600
      and cs = "scale_to_cover_canvas 800 600 970 250" and tw = 970 and th = 250
      and fs = "final_scale 800 600 970 250 836 216 default_prominence 200 300" and aw = 836 and ah = 216
      and p = default_prominence and ?x1.0 = 100 and ?x2.0 = 300 and ?y1.0 = 100 and ?y2.0 = 400
      and ax = 67 and ay = 17 and bg = default_bg_color]
    ev_no_hero ev_hero
  by (simp del: create_base_canvas_with_hero.simps py_mul.simps py_int.simps)

text \<open>
  C3 (full cover) does not hold in the no-hero regime. For an 800 x 600 source and a
  970 x 250 canvas the cover scale is the float nearest to 97/80, which lies below it;
  \<^verbatim>\<open>int(800 * scale)\<close> is 969, the resized image is 969 x 727, the crop pasted at the
  origin is 969 pixels wide, and the last column of the returned canvas keeps the
  background fill. The usable-hero branch raises the resized size to the target size first.
\<close>

theorem no_hero_crop_leaves_background:
  "create_base_canvas_with_hero (Given () 800 600) 970 250 None 67 17 836 216
       default_prominence default_bg_color =
     Inr (Paste (New 970 250 default_bg_color)
       (Crop (Resize (Given () 800 600) 969 727) 0 238 969 488) 0 0)
   \<and> pixel_at (Paste (New 970 250 default_bg_color)
       (Crop (Resize (Given () 800 600) 969 727) 0 238 969 488) 0 0 :: unit image) 969 0 = Fill default_bg_color"
  by (simp only: ev_no_hero) simp

lemma crop_coord_bounds:
  "t \<le> s \<Longrightarrow> 0 \<le> num_val (crop_coord x1 hw ax aw fs s t) \<and>
     num_val (crop_coord x1 hw ax aw fs s t) + of_int t \<le> of_int s"
  by (auto simp: crop_coord_def py_max_def py_min_def Let_def)

lemma py_int_nonneg: "0 \<le> num_val c \<Longrightarrow> 0 \<le> py_int c"
  by (cases c) (simp_all add: py_trunc_nonneg)

lemma crop_right_le:
  assumes "num_val c + of_int t \<le> of_int s" "\<bar>t\<bar> \<le> 2 ^ 53" "\<bar>s\<bar> \<le> 2 ^ 53"
  shows "py_int (py_add c (PInt t)) \<le> s"
proof (cases c)
  case (PInt k)
  then have "(of_int (k + t) :: rat) \<le> of_int s" using assms(1) by simp
  then have "k + t \<le> s" by (simp only: of_int_le_iff)
  then show ?thesis using PInt by simp
next
  case (PFloat q)
  have "fl (q + fl (of_int t)) \<le> fl (of_int s)"
    using assms(1) PFloat by (intro fl_mono) (simp add: fl_of_int[OF assms(2)])
  then have "fl (q + fl (of_int t)) \<le> of_int s" by (simp add: fl_of_int[OF assms(3)])
  then show ?thesis using PFloat by (simp add: py_trunc_le)
qed

text \<open>
  C4 (crop clamp): in the usable-hero regime the compositor raises \<^verbatim>\<open>ValueError\<close> when the
  target or the resized size is rejected by Pillow, and otherwise returns the canvas with
  the crop of the resized source at the clamped origin. In either case the resized size is
  at least the target size; the clamped origin \<open>(cx, cy)\<close> is not negative and \<open>cx + tw\<close>,
  \<open>cy + th\<close> do not exceed the resized size. The integer box handed to the crop starts at
  non-negative coordinates and, for sizes up to \<open>2 ^ 53\<close> (which floats represent
  exactly), ends within the resized image.
\<close>

theorem hero_crop_within_resized:
  assumes "image_size src = (iw, ih)" "iw \<noteq> 0" "ih \<noteq> 0" "0 < aw" "0 < ah" "x1 < x2" "y1 < y2"
    and "fs = final_scale iw ih tw th aw ah p (x2 - x1) (y2 - y1)"
    and "sw = scaled_dim tw iw fs" "sh = scaled_dim th ih fs"
    and "cx = crop_coord x1 (x2 - x1) ax aw fs sw tw" "cy = crop_coord y1 (y2 - y1) ay ah fs sh th"
  shows "create_base_canvas_with_hero src tw th (Some (x1, y1, x2, y2)) ax ay aw ah p bg =
       (if tw < 0 \<or> th < 0 \<or> sw < 1 \<or> sh < 1 then Inl ValueError
        else Inr (Paste (New tw th bg)
               (Crop (Resize src sw sh) (py_int cx) (py_int cy)
                  (py_int (py_add cx (PInt tw))) (py_int (py_add cy (PInt th)))) 0 0))
     \<and> tw \<le> sw \<and> th \<le> sh
     \<and> 0 \<le> num_val cx \<and> 0 \<le> num_val cy
     \<and> num_val cx + of_int tw \<le> of_int sw \<and> num_val cy + of_int th \<le> of_int sh
     \<and> 0 \<le> py_int cx \<and> 0 \<le> py_int cy
     \<and> (\<bar>tw\<bar> \<le> 2 ^ 53 \<and> \<bar>sw\<bar> \<le> 2 ^ 53 \<longrightarrow> py_int (py_add cx (PInt tw)) \<le> sw)
     \<and> (\<bar>th\<bar> \<le> 2 ^ 53 \<and> \<bar>sh\<bar> \<le> 2 ^ 53 \<longrightarrow> py_int (py_add cy (PInt th)) \<le> sh)"
proof -
  have res: "create_base_canvas_with_hero src tw th (Some (x1, y1, x2, y2)) ax ay aw ah p bg =
       (if tw < 0 \<or> th < 0 \<or> sw < 1 \<or> sh < 1 then Inl ValueError
        else Inr (Paste (New tw th bg)
               (Crop (Resize src sw sh) (py_int cx) (py_int cy)
                  (py_int (py_add cx (PInt tw))) (py_int (py_add cy (PInt th)))) 0 0))"
    using assms by (rule hero_result)
  have w: "tw \<le> sw" and h: "th \<le> sh" using assms(9,10) by (simp_all add: scaled_dim_ge)
  have bx: "0 \<le> num_val cx \<and> num_val cx + of_int tw \<le> of_int sw"
    unfolding assms(11) by (rule crop_coord_bounds[OF w])
  have by': "0 \<le> num_val cy \<and> num_val cy + of_int th \<le> of_int sh"
    unfolding assms(12) by (rule crop_coord_bounds[OF h])
  have l0: "0 \<le> py_int cx" and u0: "0 \<le> py_int cy"
    using bx by' by (simp_all add: py_int_nonneg)
  have r: "\<bar>tw\<bar> \<le> 2 ^ 53 \<and> \<bar>sw\<bar> \<le> 2 ^ 53 \<longrightarrow> py_int (py_add cx (PInt tw)) \<le> sw"
    using bx by (simp add: crop_right_le)
  have b: "\<bar>th\<bar> \<le> 2 ^ 53 \<and> \<bar>sh\<bar> \<le> 2 ^ 53 \<longrightarrow> py_int (py_add cy (PInt th)) \<le> sh"
    using by' by (simp add: crop_right_le)
  from res w h bx by' l0 u0 r b show ?thesis by blast
qed

theorem hero_crop_within_resized_witness:
  "image_size (Given () 800 600) = (800, 600) \<and> (800::int) \<noteq> 0 \<and> (600::int) \<noteq> 0 \<and>
   (0::int) < 836 \<and> (0::int) < 216 \<and> (100::int) < 300 \<and> (100::int) < 400 \<and>
   \<bar>970::int\<bar> \<le> 2 ^ 53 \<and> \<bar>250::int\<bar> \<le> 2 ^ 53 \<and>
   \<bar>scaled_dim 970 800 (final_scale 800 600 970 250 836 216 default_prominence 200 300)\<bar> \<le> 2 ^ 53 \<and>
   \<bar>scaled_dim 250 600 (final_scale 800 600 970 250 836 216 default_prominence 200 300)\<bar> \<le> 2 ^ 53 \<and>
   create_base_canvas_with_hero (Given () 800 600) 970 250 (Some (100, 100, 300, 400))
       67 17 836 216 default_prominence default_bg_color =
     Inr (Paste (New 970 250 default_bg_color)
       (Crop (Resize (Given () 800 600) 970 727) 0 178 970 428) 0 0) \<and>
   (0::int) \<le> 0 \<and> (0::int) \<le> 178 \<and> (970::int) \<le> 970 \<and> (428::int) \<le> 727"
  using hero_crop_within_resized [of "Given () 800 600" 800 600 836 216 100 300 100 400
      "final_scale 800 600 970 250 836 216 default_prominence 200 300" 970 250 default_prominence
      "scaled_dim 970 800 (final_scale 800 600 970 250 836 216 default_prominence 200 300)"
      "scaled_dim 250 600 (final_scale 800 600 970 250 836 216 default_prominence 200 300)"
      "crop_coord 100 200 67 836 (final_scale 800 600 970 250 836 216 default_prominence 200 300)
         (scaled_dim 970 800 (final_scale 800 600 970 250 836 216 default_prominence 200 300)) 970"
      67
      "crop_coord 100 300 17 216 (final_scale 800 600 970 250 836 216 default_prominence 200 300)
         (scaled_dim 250 600 (final_scale 800 600 970 250 836 216 default_prominence 200 300)) 250"
      17 default_bg_color]
  by (simp add: ev_fs ev_sw ev_sh ev_cx ev_cy fl_numeral fl_val_14 py_trunc_def floor_rat_numeral
      del: create_base_canvas_with_hero.simps)

lemma crop_width_ge:
  assumes "0 \<le> num_val c" "num_val c + of_int t \<le> of_int s" "0 \<le> t" "\<bar>t\<bar> \<le> 2 ^ 53" "\<bar>s\<bar> \<le> 2 ^ 53"
  shows "py_int c + t \<le> py_int (py_add c (PInt t))"
proof (cases c)
  case (PInt k)
  then show ?thesis by simp
next
  case (PFloat q)
  have q: "0 \<le> q" "q + of_int t \<le> of_int s" using assms(1,2) PFloat by simp_all
  have f0: "0 \<le> \<lfloor>q\<rfloor>" using q(1) by simp
  have "(of_int (\<lfloor>q\<rfloor> + t) :: rat) \<le> q + of_int t" by simp
  also have "\<dots> \<le> of_int s" by (rule q(2))
  finally have "\<lfloor>q\<rfloor> + t \<le> s" by (simp only: of_int_le_iff)
  then have b: "\<bar>\<lfloor>q\<rfloor> + t\<bar> \<le> 2 ^ 53" using f0 assms(3,5) by simp
  have "fl (of_int (\<lfloor>q\<rfloor> + t)) \<le> fl (q + fl (of_int t))"
    by (intro fl_mono) (simp add: fl_of_int [OF assms(4)])
  then have "of_int (\<lfloor>q\<rfloor> + t) \<le> fl (q + fl (of_int t))" by (simp only: fl_of_int [OF b])
  then have "\<lfloor>q\<rfloor> + t \<le> py_trunc (fl (q + fl (of_int t)))"
    using f0 assms(3) by (intro py_trunc_ge) simp_all
  then show ?thesis using PFloat q(1) by (simp add: py_trunc_def)
qed


text \<open>
  The usable-hero branch, in contrast to the no-hero branch, covers the canvas: with
  resized sizes up to \<open>2 ^ 53\<close>, the compositor returns and every canvas pixel is a
  pixel of the resized source.
\<close>

lemma hero_canvas_covers:
  assumes "image_size src = (iw, ih)" "iw \<noteq> 0" "ih \<noteq> 0" "0 < aw" "0 < ah" "x1 < x2" "y1 < y2"
    and "fs = final_scale iw ih tw th aw ah p (x2 - x1) (y2 - y1)"
    and "sw = scaled_dim tw iw fs" "sh = scaled_dim th ih fs"
    and "sw \<le> 2 ^ 53" "sh \<le> 2 ^ 53"
    and "0 \<le> x" "x < tw" "0 \<le> y" "y < th"
  shows "\<exists>img u v. create_base_canvas_with_hero src tw th (Some (x1, y1, x2, y2))
                 ax ay aw ah p bg = Inr img \<and>
               pixel_at img x y = Sample (Resize src sw sh) u v"
proof -
  define cx where "cx = crop_coord x1 (x2 - x1) ax aw fs sw tw"
  define cy where "cy = crop_coord y1 (y2 - y1) ay ah fs sh th"
  define l where "l = py_int cx"
  define u where "u = py_int cy"
  define r where "r = py_int (py_add cx (PInt tw))"
  define b where "b = py_int (py_add cy (PInt th))"
  have w: "tw \<le> sw" and h: "th \<le> sh" using assms(9,10) by (simp_all add: scaled_dim_ge)
  have ok: "\<not> (tw < 0 \<or> th < 0 \<or> sw < 1 \<or> sh < 1)" using assms(13-16) w h by auto
  have res: "create_base_canvas_with_hero src tw th (Some (x1, y1, x2, y2)) ax ay aw ah p bg =
       Inr (Paste (New tw th bg) (Crop (Resize src sw sh) l u r b) 0 0)"
    using hero_result [OF assms(1-10) cx_def cy_def, of bg] ok
    by (simp only: if_False l_def u_def r_def b_def)
  have tw: "0 \<le> tw" "\<bar>tw\<bar> \<le> 2 ^ 53" "\<bar>sw\<bar> \<le> 2 ^ 53" using assms(11,13,14) w by simp_all
  have th: "0 \<le> th" "\<bar>th\<bar> \<le> 2 ^ 53" "\<bar>sh\<bar> \<le> 2 ^ 53" using assms(12,15,16) h by simp_all
  have bx: "0 \<le> num_val cx \<and> num_val cx + of_int tw \<le> of_int sw"
    unfolding cx_def by (rule crop_coord_bounds [OF w])
  have by': "0 \<le> num_val cy \<and> num_val cy + of_int th \<le> of_int sh"
    unfolding cy_def by (rule crop_coord_bounds [OF h])
  have l0: "0 \<le> l" unfolding l_def using bx by (intro py_int_nonneg) simp
  have u0: "0 \<le> u" unfolding u_def using by' by (intro py_int_nonneg) simp
  have rs: "r \<le> sw" unfolding r_def using bx tw by (intro crop_right_le) simp_all
  have bs: "b \<le> sh" unfolding b_def using by' th by (intro crop_right_le) simp_all
  have lr: "l + tw \<le> r" unfolding l_def r_def using bx tw by (intro crop_width_ge [where s = sw]) simp_all
  have ub: "u + th \<le> b" unfolding u_def b_def using by' th by (intro crop_width_ge [where s = sh]) simp_all
  have "pixel_at (Paste (New tw th bg) (Crop (Resize src sw sh) l u r b) 0 0) x y =
      Sample (Resize src sw sh) (x + l) (y + u)"
    using assms(13-16) l0 u0 rs bs lr ub by simp
  then show ?thesis using res by blast
qed

section \<open>Size of the returned canvas\<close>





section \<open>Font-size search\<close>

lemma probed_sizes_range:
  "s \<in> set (probed_sizes font t low high) \<Longrightarrow> low \<le> s \<and> s \<le> high \<and> 0 < s"
proof (induction font t low high rule: probed_sizes.induct)
  case (1 font t low high)
  let ?mid = "(low + high) div 2"
  from "1.prems" have lh: "low \<le> high"
    by (cases "low \<le> high") (simp_all add: probed_sizes.simps [of font t low high])
  show ?case
  proof (cases "?mid \<le> 0")
    case True
    then have "s \<in> set (probed_sizes font t 1 high)"
      using "1.prems" lh by (simp add: probed_sizes.simps [of font t low high])
    from "1.IH"(1) [OF lh refl True this] show ?thesis using True lh by linarith
  next
    case False
    let ?h = "measured_height font ?mid"
    consider (here) "s = ?mid" | (up) "?h < t" "s \<in> set (probed_sizes font t (?mid + 1) high)"
      | (down) "\<not> ?h < t" "t < ?h" "s \<in> set (probed_sizes font t low (?mid - 1))"
      using "1.prems" lh False
      by (auto simp: probed_sizes.simps [of font t low high] Let_def split: if_splits)
    then show ?thesis
    proof cases
      case here
      then show ?thesis using lh False by linarith
    next
      case up
      from "1.IH"(2) [OF lh refl False refl up(1) up(2)] show ?thesis using lh by linarith
    next
      case down
      from "1.IH"(3) [OF lh refl False refl down(1) down(2) down(3)] show ?thesis using lh by linarith
    qed
  qed
qed

lemma probed_sizes_nonempty:
  "low \<le> high \<Longrightarrow> 0 < low \<Longrightarrow> probed_sizes font t low high \<noteq> []"
  by (subst probed_sizes.simps) (auto simp: Let_def)

lemma best_step:
  fixes c :: "int \<Rightarrow> int"
  assumes ih: "(R \<in> set P' \<or> (R = bs' \<and> (bd' \<noteq> None \<or> P' = [])))
       \<and> (\<forall>s \<in> set P'. c R \<le> c s)
       \<and> (\<forall>d. bd' = Some d \<longrightarrow> c R \<le> d)
       \<and> (\<forall>s \<in> set P'. m s = t \<longrightarrow> R = s)"
    and bd': "bd' = Some d'" and le: "d' \<le> c mid" and old: "\<forall>d. bd = Some d \<longrightarrow> d' \<le> d"
    and stay: "bs' = mid \<or> (bs' = bs \<and> bd \<noteq> None)" and ne: "m mid \<noteq> t"
  shows "(R \<in> set (mid # P') \<or> (R = bs \<and> (bd \<noteq> None \<or> mid # P' = [])))
       \<and> (\<forall>s \<in> set (mid # P'). c R \<le> c s)
       \<and> (\<forall>d. bd = Some d \<longrightarrow> c R \<le> d)
       \<and> (\<forall>s \<in> set (mid # P'). m s = t \<longrightarrow> R = s)"
proof -
  from ih have a: "R \<in> set P' \<or> R = bs'" by blast
  from ih have b: "\<forall>s \<in> set P'. c R \<le> c s" by blast
  from ih bd' have cR: "c R \<le> d'" by blast
  from ih have e: "\<forall>s \<in> set P'. m s = t \<longrightarrow> R = s" by blast
  have g1: "R \<in> set (mid # P') \<or> (R = bs \<and> (bd \<noteq> None \<or> mid # P' = []))"
    using a stay by auto
  have "c R \<le> c mid" using cR le by simp
  then have g2: "\<forall>s \<in> set (mid # P'). c R \<le> c s" using b by simp
  have g3: "\<forall>d. bd = Some d \<longrightarrow> c R \<le> d"
  proof (intro allI impI)
    fix d assume "bd = Some d"
    with old have "d' \<le> d" by blast
    with cR show "c R \<le> d" by simp
  qed
  have g4: "\<forall>s \<in> set (mid # P'). m s = t \<longrightarrow> R = s" using e ne by auto
  from g1 g2 g3 g4 show ?thesis by blast
qed

lemma ffs_loop_best:
  assumes "\<forall>d. bd = Some d \<longrightarrow> d = height_diff font t bs"
  shows "(ffs_loop font t low high bs bd \<in> set (probed_sizes font t low high) \<or>
          (ffs_loop font t low high bs bd = bs \<and> (bd \<noteq> None \<or> probed_sizes font t low high = [])))
       \<and> (\<forall>s \<in> set (probed_sizes font t low high).
             height_diff font t (ffs_loop font t low high bs bd) \<le> height_diff font t s)
       \<and> (\<forall>d. bd = Some d \<longrightarrow> height_diff font t (ffs_loop font t low high bs bd) \<le> d)
       \<and> (\<forall>s \<in> set (probed_sizes font t low high).
             measured_height font s = t \<longrightarrow> ffs_loop font t low high bs bd = s)"
  using assms
proof (induction font t low high bs bd rule: ffs_loop.induct)
  case (1 font t low high bs bd)
  define mid where "mid = (low + high) div 2"
  note fs = ffs_loop.simps [of font t low high bs bd, folded mid_def]
  note ps = probed_sizes.simps [of font t low high, folded mid_def]
  show ?case
  proof (cases "low \<le> high")
    case False
    have r: "ffs_loop font t low high bs bd = bs" by (subst fs) (simp add: False)
    have p: "probed_sizes font t low high = []" by (subst ps) (simp add: False)
    show ?thesis unfolding r p using "1.prems" by simp
  next
    case lh: True
    show ?thesis
    proof (cases "mid \<le> 0")
      case True
      have r: "ffs_loop font t low high bs bd = ffs_loop font t 1 high bs bd"
        by (subst fs) (simp add: lh True)
      have p: "probed_sizes font t low high = probed_sizes font t 1 high"
        by (subst ps) (simp add: lh True)
      show ?thesis unfolding r p
        by (rule "1.IH"(1) [OF lh refl, folded mid_def, OF True "1.prems"])
    next
      case False
      define h where "h = measured_height font mid"
      define diff where "diff = \<bar>h - t\<bar>"
      define bd' where "bd' = (if improves diff bd then Some diff else bd)"
      define bs' where "bs' = (if improves diff bd then mid else bs)"
      have dmid: "height_diff font t mid = diff" by (simp add: height_diff_def diff_def h_def)
      have inv': "\<forall>d. bd' = Some d \<longrightarrow> d = height_diff font t bs'"
        using "1.prems" dmid by (auto simp: bd'_def bs'_def)
      have "\<exists>d'. bd' = Some d' \<and> d' \<le> diff \<and> (\<forall>d. bd = Some d \<longrightarrow> d' \<le> d)"
        by (cases bd; cases "improves diff bd") (auto simp: bd'_def improves_def)
      then obtain d' where d': "bd' = Some d'" "d' \<le> diff" "\<forall>d. bd = Some d \<longrightarrow> d' \<le> d"
        by blast
      have le: "d' \<le> height_diff font t mid" using d'(2) by (simp only: dmid)
      have stay: "bs' = mid \<or> (bs' = bs \<and> bd \<noteq> None)"
        by (cases bd) (auto simp: bs'_def improves_def)
      note fs' = fs [unfolded Let_def, folded h_def, folded diff_def, folded bd'_def bs'_def]
      note ps' = ps [unfolded Let_def, folded h_def]
      consider (lt) "h < t" | (gt) "\<not> h < t" "t < h" | (eq) "h = t" by linarith
      then show ?thesis
      proof cases
        case lt
        have r: "ffs_loop font t low high bs bd = ffs_loop font t (mid + 1) high bs' bd'"
          by (subst fs') (simp only: lh False lt if_True if_False)
        have p: "probed_sizes font t low high = mid # probed_sizes font t (mid + 1) high"
          by (subst ps') (simp only: lh False lt if_True if_False)
        have ne: "measured_height font mid \<noteq> t" using lt by (simp add: h_def)
        note ih = "1.IH"(2) [OF lh refl, folded mid_def, OF False refl refl refl refl,
            folded h_def, folded diff_def, folded bd'_def bs'_def, OF lt inv']
        show ?thesis unfolding r p by (rule best_step [where c = "height_diff font t" and m = "measured_height font", OF ih d'(1) le d'(3) stay ne])
      next
        case gt
        have r: "ffs_loop font t low high bs bd = ffs_loop font t low (mid - 1) bs' bd'"
          by (subst fs') (simp only: lh False gt if_True if_False)
        have p: "probed_sizes font t low high = mid # probed_sizes font t low (mid - 1)"
          by (subst ps') (simp only: lh False gt if_True if_False)
        have ne: "measured_height font mid \<noteq> t" using gt by (simp add: h_def)
        note ih = "1.IH"(3) [OF lh refl, folded mid_def, OF False refl refl refl refl,
            folded h_def, folded diff_def, folded bd'_def bs'_def, OF gt(1) gt(2) inv']
        show ?thesis unfolding r p by (rule best_step [where c = "height_diff font t" and m = "measured_height font", OF ih d'(1) le d'(3) stay ne])
      next
        case eq
        have nlt: "\<not> h < t" "\<not> t < h" using eq by simp_all
        have r: "ffs_loop font t low high bs bd = mid"
          by (subst fs') (simp only: lh False nlt if_True if_False)
        have p: "probed_sizes font t low high = [mid]"
          by (subst ps') (simp only: lh False nlt if_True if_False)
        have z: "height_diff font t mid = 0" using eq by (simp only: dmid) (simp add: diff_def)
        have hm: "measured_height font mid = t" using eq by (simp add: h_def)
        have nn: "\<forall>d. bd = Some d \<longrightarrow> 0 \<le> d"
        proof (intro allI impI)
          fix d assume "bd = Some d"
          with "1.prems" have "d = height_diff font t bs" by blast
          then show "0 \<le> d" by (simp add: height_diff_def)
        qed
        have zz: "\<forall>s. 0 \<le> height_diff font t s" by (simp add: height_diff_def)
        show ?thesis unfolding r p using z nn zz by simp
      qed
    qed
  qed
qed

text \<open>
  C5 (font-size search): with the bounds 10 and 128 the search returns one of the sizes
  it measured, between 10 and 128, whose height differs from the target (raised to at
  least 1) by no more than that of any other size measured during the search; and when
  a measured size hits the target exactly, the search returns that size.
\<close>

theorem font_size_search_best:
  "10 \<le> find_font_size_for_height target font 10 128 \<and>
   find_font_size_for_height target font 10 128 \<le> 128 \<and>
   find_font_size_for_height target font 10 128 \<in> set (probed_sizes font (max 1 target) 10 128) \<and>
   (\<forall>s \<in> set (probed_sizes font (max 1 target) 10 128).
      \<bar>measured_height font (find_font_size_for_height target font 10 128) - max 1 target\<bar>
        \<le> \<bar>measured_height font s - max 1 target\<bar>) \<and>
   (\<forall>s \<in> set (probed_sizes font (max 1 target) 10 128).
      measured_height font s = max 1 target \<longrightarrow> find_font_size_for_height target font 10 128 = s)"
proof -
  let ?t = "max 1 target"
  let ?r = "find_font_size_for_height target font 10 128"
  let ?P = "probed_sizes font ?t 10 128"
  have inv: "\<forall>d. (None :: int option) = Some d \<longrightarrow> d = height_diff font ?t 10" by simp
  note best = ffs_loop_best [OF inv, of 10 128, folded find_font_size_for_height_def]
  have ne: "?P \<noteq> []" by (rule probed_sizes_nonempty) simp_all
  from best ne have mem: "?r \<in> set ?P" by blast
  from probed_sizes_range [OF mem] have rng: "10 \<le> ?r" "?r \<le> 128" by simp_all
  from best have min: "\<forall>s \<in> set ?P. height_diff font ?t ?r \<le> height_diff font ?t s" by blast
  from best have hit: "\<forall>s \<in> set ?P. measured_height font s = ?t \<longrightarrow> ?r = s" by blast
  from rng mem min hit show ?thesis by (simp add: height_diff_def)
qed

theorem font_size_search_best_witness:
  "probed_sizes (\<lambda>s. Some (s + s div 5)) (max 1 41) 10 128 = [69, 39, 24, 31, 35, 33, 34] \<and>
   find_font_size_for_height 41 (\<lambda>s. Some (s + s div 5)) 10 128 = 35 \<and>
   map (\<lambda>s. \<bar>measured_height (\<lambda>s. Some (s + s div 5)) s - max 1 41\<bar>) [69, 39, 24, 31, 35, 33, 34] =
     [41, 5, 13, 4, 1, 2, 1]"
proof -
  have p: "probed_sizes (\<lambda>s. Some (s + s div 5)) (max 1 41) 10 128 = [69, 39, 24, 31, 35, 33, 34]"
    by (simp add: probed_sizes.simps measured_height_def)
  have m: "35 \<in> set [69, 39, 24, 31, 35, 33, 34 :: int]" by simp
  have h: "measured_height (\<lambda>s. Some (s + s div 5)) 35 = 42" by (simp add: measured_height_def)
  from font_size_search_best [of 41 "\<lambda>s. Some (s + s div 5)"]
  have r: "find_font_size_for_height 41 (\<lambda>s. Some (s + s div 5)) 10 128 \<in> set [69, 39, 24, 31, 35, 33, 34]"
    and b: "\<bar>measured_height (\<lambda>s. Some (s + s div 5))
             (find_font_size_for_height 41 (\<lambda>s. Some (s + s div 5)) 10 128) - max 1 41\<bar>
           \<le> \<bar>measured_height (\<lambda>s. Some (s + s div 5)) 35 - max 1 41\<bar>"
    unfolding p using m by blast+
  have e: "find_font_size_for_height 41 (\<lambda>s. Some (s + s div 5)) 10 128 = 35"
    by (simp add: find_font_size_for_height_def ffs_loop.simps measured_height_def improves_def)
  show ?thesis using p e r b by (simp add: measured_height_def)
qed

section \<open>Word wrap\<close>

lemma split_ws_words:
  "\<forall>c \<in> set cur. \<not> py_isspace c \<Longrightarrow> w \<in> set (split_ws cur s) \<Longrightarrow>
     w \<noteq> [] \<and> (\<forall>c \<in> set w. \<not> py_isspace c)"
proof (induction s arbitrary: cur)
  case Nil
  then show ?case by (auto split: if_splits)
next
  case (Cons a s)
  have empty: "\<forall>c \<in> set ([] :: pystr). \<not> py_isspace c" by simp
  show ?case
  proof (cases "py_isspace a")
    case True
    then have "w = cur \<and> cur \<noteq> [] \<or> w \<in> set (split_ws [] s)"
      using Cons.prems(2) by (auto split: if_splits)
    then show ?thesis using Cons.IH [OF empty] Cons.prems(1) by blast
  next
    case False
    then have ext: "\<forall>c \<in> set (cur @ [a]). \<not> py_isspace c" using Cons.prems(1) by simp
    have "w \<in> set (split_ws (cur @ [a]) s)" using False Cons.prems(2) by simp
    from Cons.IH [OF ext this] show ?thesis .
  qed
qed

lemma py_isspace_space: "py_isspace 32"
  by (simp add: py_isspace_def)

lemma py_split_words:
  assumes "w \<in> set (py_split s)"
  shows "w \<noteq> [] \<and> 32 \<notin> set w"
proof -
  have "\<forall>c \<in> set ([] :: pystr). \<not> py_isspace c" by simp
  moreover have "w \<in> set (split_ws [] s)" using assms by (simp only: py_split_def)
  ultimately have "w \<noteq> [] \<and> (\<forall>c \<in> set w. \<not> py_isspace c)" by (rule split_ws_words)
  then show ?thesis using py_isspace_space by blast
qed

lemma split_sep_nosep: "sep \<notin> set w \<Longrightarrow> split_sep sep cur w = [cur @ w]"
  by (induction w arbitrary: cur) auto

lemma split_sep_append:
  "sep \<notin> set w \<Longrightarrow> split_sep sep cur (xs @ sep # w) = split_sep sep cur xs @ [w]"
  by (induction xs arbitrary: cur) (auto simp: split_sep_nosep)

lemma words_of_word: "w \<noteq> [] \<Longrightarrow> 32 \<notin> set w \<Longrightarrow> words_of w = [w]"
  by (simp add: words_of_def split_on_space_def split_sep_nosep)

lemma words_of_extend:
  "w \<noteq> [] \<Longrightarrow> 32 \<notin> set w \<Longrightarrow>
   words_of (cl @ (if cl \<noteq> [] then [32] else []) @ w) = words_of cl @ [w]"
  by (simp add: words_of_def split_on_space_def split_sep_nosep split_sep_append)

lemma lines_flush:
  "concat (map split_on_space (if cl \<noteq> [] then ls @ [cl] else ls)) =
   concat (map split_on_space ls) @ words_of cl"
  by (simp add: words_of_def)

lemma wrap_words_keeps:
  assumes "\<forall>w \<in> set ws. w \<noteq> [] \<and> 32 \<notin> set w"
    and "wrap_words getbbox sz mw ws cl ls = (cl', ls')"
  shows "concat (map split_on_space ls') @ words_of cl'
       = concat (map split_on_space ls) @ words_of cl @ ws"
  using assms
proof (induction ws arbitrary: cl ls)
  case Nil
  then show ?case by simp
next
  case (Cons w ws)
  have w: "w \<noteq> []" "32 \<notin> set w" using Cons.prems(1) by auto
  have rest: "\<forall>w \<in> set ws. w \<noteq> [] \<and> 32 \<notin> set w" using Cons.prems(1) by auto
  let ?test = "cl @ (if cl \<noteq> [] then [32] else []) @ w"
  show ?case
  proof (cases "num_val (line_width getbbox sz ?test) \<le> of_int mw")
    case True
    then have "wrap_words getbbox sz mw ws ?test ls = (cl', ls')"
      using Cons.prems(2) by (simp add: Let_def)
    from Cons.IH [OF rest this] show ?thesis
      by (simp only: words_of_extend [OF w]) simp
  next
    case False
    then have "wrap_words getbbox sz mw ws w (if cl \<noteq> [] then ls @ [cl] else ls) = (cl', ls')"
      using Cons.prems(2) by (simp add: Let_def)
    from Cons.IH [OF rest this] show ?thesis
      by (simp only: lines_flush words_of_word [OF w]) simp
  qed
qed

text \<open>
  C6 (wrap round trip): unless the hard-truncation fallback fires, the wrap returns the
  greedy lines, and splitting every line at single spaces and concatenating the pieces
  in order gives exactly the whitespace-split words of the text. The fallback fires
  exactly when the text is not empty and consists of whitespace only
  (\<open>fallback_iff_blank\<close> below).
\<close>

theorem wrap_round_trip:
  "\<not> truncation_fallback getbbox font_sz max_w content_item \<Longrightarrow>
   wrap_copy getbbox font_sz max_w content_item = Inr (greedy_lines getbbox font_sz max_w content_item) \<and>
   concat (map split_on_space (greedy_lines getbbox font_sz max_w content_item)) = py_split content_item"
proof -
  assume nf: "\<not> truncation_fallback getbbox font_sz max_w content_item"
  obtain cl ls where wl: "wrap_words getbbox font_sz max_w (py_split content_item) [] [] = (cl, ls)"
    by (cases "wrap_words getbbox font_sz max_w (py_split content_item) [] []") auto
  have ws: "\<forall>w \<in> set (py_split content_item). w \<noteq> [] \<and> 32 \<notin> set w"
    using py_split_words by blast
  from wrap_words_keeps [OF ws wl]
  have "concat (map split_on_space ls) @ words_of cl = py_split content_item"
    by (simp add: words_of_def)
  moreover have "greedy_lines getbbox font_sz max_w content_item = (if cl \<noteq> [] then ls @ [cl] else ls)"
    by (simp add: greedy_lines_def wl)
  ultimately have "concat (map split_on_space (greedy_lines getbbox font_sz max_w content_item)) = py_split content_item"
    by (simp only: lines_flush)
  moreover have "wrap_copy getbbox font_sz max_w content_item = Inr (greedy_lines getbbox font_sz max_w content_item)"
    using nf by (simp add: wrap_copy_def)
  ultimately show ?thesis by simp
qed

theorem wrap_round_trip_witness:
  "\<not> truncation_fallback (\<lambda>l. Some (0, 0, 10 * int (length l), 12)) 20 80
       [98, 105, 103, 32, 32, 115, 97, 108, 101, 32, 110, 111, 119] \<and>
   wrap_copy (\<lambda>l. Some (0, 0, 10 * int (length l), 12)) 20 80
       [98, 105, 103, 32, 32, 115, 97, 108, 101, 32, 110, 111, 119] =
     Inr [[98, 105, 103, 32, 115, 97, 108, 101], [110, 111, 119]] \<and>
   concat (map split_on_space [[98, 105, 103, 32, 115, 97, 108, 101], [110, 111, 119]]) =
     [[98, 105, 103], [115, 97, 108, 101], [110, 111, 119]] \<and>
   py_split [98, 105, 103, 32, 32, 115, 97, 108, 101, 32, 110, 111, 119] =
     [[98, 105, 103], [115, 97, 108, 101], [110, 111, 119]]"
proof -
  have sp: "py_split [98, 105, 103, 32, 32, 115, 97, 108, 101, 32, 110, 111, 119] =
     [[98, 105, 103], [115, 97, 108, 101], [110, 111, 119]]"
    by (simp add: py_split_def py_isspace_def)
  have gl: "greedy_lines (\<lambda>l. Some (0, 0, 10 * int (length l), 12)) 20 80
       [98, 105, 103, 32, 32, 115, 97, 108, 101, 32, 110, 111, 119] =
     [[98, 105, 103, 32, 115, 97, 108, 101], [110, 111, 119]]"
    by (simp add: greedy_lines_def sp line_width_def)
  have nf: "\<not> truncation_fallback (\<lambda>l. Some (0, 0, 10 * int (length l), 12)) 20 80
       [98, 105, 103, 32, 32, 115, 97, 108, 101, 32, 110, 111, 119]"
    by (simp add: truncation_fallback_def gl)
  from wrap_round_trip [OF nf] show ?thesis using nf by (simp add: gl sp)
qed


lemma wrap_words_last:
  assumes "\<forall>w \<in> set ws. w \<noteq> []" "ws \<noteq> [] \<or> cl \<noteq> []"
    and "wrap_words getbbox sz mw ws cl ls = (cl', ls')"
  shows "cl' \<noteq> []"
  using assms
proof (induction ws arbitrary: cl ls)
  case Nil
  then show ?case by simp
next
  case (Cons w ws)
  have w: "w \<noteq> []" and rest: "\<forall>w \<in> set ws. w \<noteq> []" using Cons.prems(1) by auto
  let ?test = "cl @ (if cl \<noteq> [] then [32] else []) @ w"
  show ?case
  proof (cases "num_val (line_width getbbox sz ?test) \<le> of_int mw")
    case True
    then have "wrap_words getbbox sz mw ws ?test ls = (cl', ls')"
      using Cons.prems(3) by (simp add: Let_def)
    moreover have "ws \<noteq> [] \<or> ?test \<noteq> []" using w by simp
    ultimately show ?thesis by (rule Cons.IH [OF rest, rotated])
  next
    case False
    then have "wrap_words getbbox sz mw ws w (if cl \<noteq> [] then ls @ [cl] else ls) = (cl', ls')"
      using Cons.prems(3) by (simp add: Let_def)
    moreover have "ws \<noteq> [] \<or> w \<noteq> []" using w by simp
    ultimately show ?thesis by (rule Cons.IH [OF rest, rotated])
  qed
qed

lemma greedy_lines_empty_iff:
  "greedy_lines getbbox font_sz max_w content_item = [] \<longleftrightarrow> py_split content_item = []"
proof
  assume e: "greedy_lines getbbox font_sz max_w content_item = []"
  obtain cl ls where wl: "wrap_words getbbox font_sz max_w (py_split content_item) [] [] = (cl, ls)"
    by (cases "wrap_words getbbox font_sz max_w (py_split content_item) [] []") auto
  show "py_split content_item = []"
  proof (rule ccontr)
    assume ne: "py_split content_item \<noteq> []"
    have "\<forall>w \<in> set (py_split content_item). w \<noteq> []" using py_split_words by blast
    moreover have "py_split content_item \<noteq> [] \<or> ([] :: pystr) \<noteq> []" using ne by simp
    ultimately have "cl \<noteq> []" using wl by (rule wrap_words_last)
    then show False using e by (simp add: greedy_lines_def wl)
  qed
next
  assume "py_split content_item = []"
  then show "greedy_lines getbbox font_sz max_w content_item = []" by (simp add: greedy_lines_def)
qed

lemma split_ws_empty_iff:
  "split_ws cur s = [] \<longleftrightarrow> cur = [] \<and> (\<forall>c \<in> set s. py_isspace c)"
  by (induction s arbitrary: cur) auto

lemma fallback_iff_blank:
  "truncation_fallback getbbox font_sz max_w content_item \<longleftrightarrow>
     content_item \<noteq> [] \<and> (\<forall>c \<in> set content_item. py_isspace c)"
  by (auto simp: truncation_fallback_def greedy_lines_empty_iff py_split_def split_ws_empty_iff)

section \<open>Stacking order and position keys\<close>

lemma groups_shape:
  "(k, g) \<in> set (pos_groups (elements_for_drawing sl sc st lk ck tk)) \<Longrightarrow>
   g \<in> {[Logo], [Copy], [Cta], [Logo, Copy], [Logo, Cta], [Copy, Cta], [Logo, Copy, Cta]}"
  by (auto simp: pos_groups_def elements_for_drawing_def split: if_splits)

lemma sorted_shape:
  "g \<in> {[Logo], [Copy], [Cta], [Logo, Copy], [Logo, Cta], [Copy, Cta], [Logo, Copy, Cta]} \<Longrightarrow>
   el_render_details_sorted k g =
     (if k = ''bottom_center'' \<and> length g = 2 then filter (\<lambda>n. n \<in> set g) [Copy, Cta, Logo]
      else filter (\<lambda>n. n \<in> set g) [Logo, Copy, Cta])"
  by (auto simp: el_render_details_sorted_def el_render_details_def add_detail_def
      stacking_order_def stack_key_def)

lemma spacing_ge: "3 \<le> spacing_between tw th safe_w safe_h a b"
  by (simp add: spacing_between_def logo_spacing_def copy_cta_spacing_def general_element_spacing_def)

lemma stack_offsets_names:
  "map fst (stack_offsets tw th sw sh h y es) = es"
  by (induction tw th sw sh h y es rule: stack_offsets.induct) auto

lemma stack_offsets_lower:
  "\<forall>n. 0 \<le> h n \<Longrightarrow> p \<in> set (stack_offsets tw th sw sh h y es) \<Longrightarrow> y \<le> snd p"
proof (induction tw th sw sh h y es rule: stack_offsets.induct)
  case (3 tw th sw sh h y e e' es)
  show ?case
  proof (cases "p = (e, y)")
    case True then show ?thesis by simp
  next
    case False
    then have "p \<in> set (stack_offsets tw th sw sh h (y + h e + spacing_between tw th sw sh e e') (e' # es))"
      using "3.prems"(2) by simp
    from "3.IH" [OF "3.prems"(1) this] show ?thesis
      using "3.prems"(1) spacing_ge [of tw th sw sh e e'] by (smt (verit))
  qed
qed auto

lemma stack_offsets_increasing:
  "\<forall>n. 0 \<le> h n \<Longrightarrow> sorted_wrt (<) (map snd (stack_offsets tw th sw sh h y es))"
proof (induction tw th sw sh h y es rule: stack_offsets.induct)
  case (3 tw th sw sh h y e e' es)
  have "\<forall>p \<in> set (stack_offsets tw th sw sh h (y + h e + spacing_between tw th sw sh e e') (e' # es)).
          y < snd p"
  proof
    fix p assume "p \<in> set (stack_offsets tw th sw sh h (y + h e + spacing_between tw th sw sh e e') (e' # es))"
    from stack_offsets_lower [OF "3.prems" this] show "y < snd p"
      using "3.prems" spacing_ge [of tw th sw sh e e'] by (smt (verit))
  qed
  then show ?case using "3.IH" [OF "3.prems"] by auto
qed auto

lemma fl_sp_1: "fl (1 / 20) = 3602879701896397 / 72057594037927936"
proof -
  have "fl (1 / 20) = of_int 7205759403792794 * 2 powi (- 57)"
    by (rule fl_eqI) simp_all
  then show ?thesis by simp
qed

lemma fl_sp_2: "fl (976380399213923587 / 36028797018963968) = 3813985934429389 / 140737488355328"
proof -
  have "fl (976380399213923587 / 36028797018963968) = of_int 7627971868858778 * 2 powi (- 48)"
    by (rule fl_eqI) simp_all
  then show ?thesis by simp
qed

lemma ev_copy_cta_spacing: "copy_cta_spacing 1200 628 542 = 27"
  by (simp add: copy_cta_spacing_def pct_of_def fl_numeral fl_sp_1 fl_sp_2 py_trunc_def floor_rat_numeral)

text \<open>
  C7 (stacking order): every group of pass 2 is rendered in the order logo, copy, cta
  of its members, except that a group of exactly two members at the key
  \<^verbatim>\<open>bottom_center\<close> is rendered in the order copy, cta, logo of its members (copy
  first, else cta). The elements are drawn in that order at strictly growing vertical
  offsets when no element has a negative height, so the order is top to bottom; in
  particular copy is drawn above cta.
\<close>

theorem stacking_order_rule:
  assumes "(k, g) \<in> set (pos_groups (elements_for_drawing sl sc st lk ck tk))"
  shows "el_render_details_sorted k g =
       (if k = ''bottom_center'' \<and> length g = 2 then filter (\<lambda>n. n \<in> set g) [Copy, Cta, Logo]
        else filter (\<lambda>n. n \<in> set g) [Logo, Copy, Cta])
     \<and> map fst (stack_offsets tw th sw sh h y (el_render_details_sorted k g)) = el_render_details_sorted k g
     \<and> ((\<forall>n. 0 \<le> h n) \<longrightarrow>
          sorted_wrt (<) (map snd (stack_offsets tw th sw sh h y (el_render_details_sorted k g))))"
  using sorted_shape [OF groups_shape [OF assms]] stack_offsets_names stack_offsets_increasing
  by blast


theorem stacking_order_rule_witness:
  "(''bottom_center'', [Copy, Cta]) \<in> set (pos_groups (elements_for_drawing True True True
       ''top_center'' ''bottom_center'' ''bottom_center'')) \<and>
   el_render_details_sorted ''bottom_center'' [Copy, Cta] = [Copy, Cta] \<and>
   stack_offsets 1200 628 1032 542 (\<lambda>n. case n of Logo \<Rightarrow> 100 | Copy \<Rightarrow> 60 | Cta \<Rightarrow> 40) 400
       (el_render_details_sorted ''bottom_center'' [Copy, Cta]) = [(Copy, 400), (Cta, 487)] \<and>
   sorted_wrt (<) (map snd [(Copy, 400::int), (Cta, 487)])"
proof -
  have mem: "(''bottom_center'', [Copy, Cta]) \<in> set (pos_groups (elements_for_drawing True True True
       ''top_center'' ''bottom_center'' ''bottom_center''))"
    by (simp add: pos_groups_def elements_for_drawing_def)
  have h: "\<forall>n. (0::int) \<le> (case n of Logo \<Rightarrow> 100 | Copy \<Rightarrow> 60 | Cta \<Rightarrow> 40)"
    by (simp split: element.split)
  note t = stacking_order_rule [OF mem, of 1200 628 1032 542 "\<lambda>n. case n of Logo \<Rightarrow> 100 | Copy \<Rightarrow> 60 | Cta \<Rightarrow> 40" 400]
  from t have o: "el_render_details_sorted ''bottom_center'' [Copy, Cta] = [Copy, Cta]" by simp
  have off: "stack_offsets 1200 628 1032 542 (\<lambda>n. case n of Logo \<Rightarrow> 100 | Copy \<Rightarrow> 60 | Cta \<Rightarrow> 40) 400
       [Copy, Cta] = [(Copy, 400), (Cta, 487)]"
    by (simp add: spacing_between_def ev_copy_cta_spacing)
  from t h have inc: "sorted_wrt (<) (map snd (stack_offsets 1200 628 1032 542
       (\<lambda>n. case n of Logo \<Rightarrow> 100 | Copy \<Rightarrow> 60 | Cta \<Rightarrow> 40) 400
       (el_render_details_sorted ''bottom_center'' [Copy, Cta])))" by blast
  from mem o off inc show ?thesis by simp
qed

text \<open>
  C8 (legacy alias) holds for copy and CTA and fails for the logo: the logo key is
  read from the request without the alias test. With \<^verbatim>\<open>let_ai_choose\<close> selected for
  all three kinds in a portrait format, copy and CTA are grouped and anchored at
  \<^verbatim>\<open>bottom_center\<close>, while the logo keeps the key \<^verbatim>\<open>let_ai_choose\<close>: a group of its
  own, no edge reserved, anchored at the origin of the safe rectangle.
\<close>

theorem logo_alias_not_resolved:
  "logo_pos_key [''portrait'' \<mapsto> ''let_ai_choose''] (orientation 1080 1920) = ''let_ai_choose'' \<and>
   copy_pos_key [''portrait'' \<mapsto> ''let_ai_choose''] (orientation 1080 1920) = ''bottom_center'' \<and>
   cta_pos_key [''portrait'' \<mapsto> ''let_ai_choose''] (orientation 1080 1920) = ''bottom_center'' \<and>
   pos_groups (elements_for_drawing True True True
       (logo_pos_key [''portrait'' \<mapsto> ''let_ai_choose''] (orientation 1080 1920))
       (copy_pos_key [''portrait'' \<mapsto> ''let_ai_choose''] (orientation 1080 1920))
       (cta_pos_key [''portrait'' \<mapsto> ''let_ai_choose''] (orientation 1080 1920))) =
     [(''let_ai_choose'', [Logo]), (''bottom_center'', [Copy, Cta])] \<and>
   get_edges_for_pos_key ''let_ai_choose'' = {} \<and>
   get_edges_for_pos_key ''bottom_center'' = {''bottom''} \<and>
   get_element_position ''let_ai_choose'' 100 50 75 134 930 1652 = (75, 134) \<and>
   get_element_position ''bottom_center'' 100 50 75 134 930 1652 = (490, 1736)"
  by (simp add: logo_pos_key_def copy_pos_key_def cta_pos_key_def dict_get_def orientation_def
      pos_groups_def elements_for_drawing_def get_edges_for_pos_key_def get_element_position_def)

section \<open>Safe rectangle\<close>

lemma fl_sa_1: "fl (7 / 100) = 1261007895663739 / 18014398509481984"
proof -
  have "fl (7 / 100) = of_int 5044031582654956 * 2 powi (- 56)"
    by (rule fl_eqI) simp_all
  then show ?thesis by simp
qed

lemma fl_sa_4: "fl (6367 / 50) = 4480377941791867 / 35184372088832"
proof -
  have "fl (6367 / 50) = of_int 8960755883583734 * 2 powi (- 46)"
    by (rule fl_eqI) simp_all
  then show ?thesis by simp
qed

lemma fl_sa_5: "fl (6364 / 25) = 4478266879466537 / 17592186044416"
proof -
  have "fl (6364 / 25) = of_int 8956533758933074 * 2 powi (- 45)"
    by (rule fl_eqI) simp_all
  then show ?thesis by simp
qed

lemma fl_sa_6: "fl (11821 / 10) = 2599465390388019 / 2199023255552"
proof -
  have "fl (11821 / 10) = of_int 5198930780776038 * 2 powi (- 42)"
    by (rule fl_eqI) simp_all
  then show ?thesis by simp
qed

lemma fl_sa_7: "fl (207243 / 100) = 4557321765503631 / 2199023255552"
proof -
  have "fl (207243 / 100) = of_int 4557321765503631 * 2 powi (- 41)"
    by (rule fl_eqI) simp_all
  then show ?thesis by simp
qed

lemma ev_override: "safe_rect 1440 2560 = (127, 254, 1182, 2072)"
  by (simp add: safe_rect_def fl_sa_4 fl_sa_5 fl_sa_6 fl_sa_7 py_trunc_def floor_rat_numeral)

lemma seven_percent_pos:
  assumes "0 \<le> n" "n \<le> 2 ^ 32"
  shows "py_trunc (fl (of_int n * fl (7 / 100))) = (7 * n) div 100"
proof -
  define c :: rat where "c = 1261007895663739 / 18014398509481984"
  define k where "k = (7 * n) div 100"
  define P where "P = of_int n * c"
  have nr: "(0::rat) \<le> of_int n" using assms(1) by simp
  have "(of_int n :: rat) \<le> of_int (2 ^ 32)" using assms(2) by (simp only: of_int_le_iff)
  then have nr2: "(of_int n :: rat) \<le> 4294967296" by simp
  have k0: "0 \<le> k" using assms by (simp add: k_def)
  have kb: "k < 2 ^ 32" using assms by (simp add: k_def)
  have "of_int (7 * n) = (of_int (100 * k + (7 * n) mod 100) :: rat)" by (simp add: k_def)
  moreover have "0 \<le> (7 * n) mod 100" "(7 * n) mod 100 \<le> 99" by simp_all
  ultimately have q: "(of_int k :: rat) \<le> 7 * of_int n / 100" "7 * of_int n / 100 \<le> (of_int k :: rat) + 99 / 100"
    by (simp_all add: field_simps)
  have lo: "of_int k \<le> P" using q(1) nr by (simp add: P_def c_def field_simps)
  have "P \<le> 7 * of_int n / 100 + of_int n / 100000000000000000" using nr nr2 by (simp add: P_def c_def field_simps)
  also have "\<dots> \<le> of_int k + 99 / 100 + 1 / 10000000" using q(2) nr nr2 by simp
  also have "\<dots> \<le> of_int k + 1 - 1 / 2 ^ 20" by simp
  finally have hi: "P \<le> of_int k + 1 - 1 / 2 ^ 20" .
  define m where "m = (k + 1) * 2 ^ 20 - 1"
  have u: "of_int k + 1 - 1 / 2 ^ 20 = (of_int m :: rat) * 2 powi (- 20)"
    by (simp add: m_def power_int_minus field_simps)
  have mb: "\<bar>m\<bar> < 2 ^ 53" using k0 kb by (simp add: m_def)
  have "fl P \<le> fl (of_int m * 2 powi (- 20))" using hi unfolding u by (rule fl_mono)
  also have "\<dots> = of_int m * 2 powi (- 20)" by (rule fl_dyadic [OF mb]) simp
  finally have f_hi: "fl P < of_int k + 1" unfolding u [symmetric] by simp
  have "fl (of_int k) \<le> fl P" using lo by (rule fl_mono)
  moreover have "fl (of_int k) = of_int k" using k0 kb by (intro fl_of_int) simp
  ultimately have f_lo: "of_int k \<le> fl P" by simp
  have "\<lfloor>fl P\<rfloor> = k" using f_lo f_hi by (intro floor_unique) auto
  moreover have "0 \<le> fl P" using f_lo k0 by (smt (verit) of_int_0_le_iff order_trans)
  ultimately have "py_trunc (fl P) = k" by (simp add: py_trunc_def)
  then show ?thesis by (simp add: P_def c_def k_def fl_sa_1)
qed

lemma seven_percent:
  assumes "\<bar>n\<bar> \<le> 2 ^ 32"
  shows "py_int (py_mul (PInt n) (PFloat (fl (7 / 100)))) = py_trunc (of_int (7 * n) / 100)"
proof -
  have fn: "fl (of_int n) = of_int n" using assms by (intro fl_of_int) simp
  show ?thesis
  proof (cases "0 \<le> n")
    case True
    have "\<lfloor>(of_int (7 * n) :: rat) / of_int 100\<rfloor> = (7 * n) div 100" by (rule floor_divide_of_int_eq)
    then have "py_trunc (of_int (7 * n) / 100) = (7 * n) div 100" using True by (simp add: py_trunc_def)
    then show ?thesis using seven_percent_pos [of n] True assms by (simp add: fn)
  next
    case False
    then have pos: "0 \<le> - n" "- n \<le> 2 ^ 32" using assms by simp_all
    have "\<lfloor>(of_int (7 * (- n)) :: rat) / of_int 100\<rfloor> = (7 * (- n)) div 100" by (rule floor_divide_of_int_eq)
    then have r: "py_trunc (of_int (7 * (- n)) / 100) = (7 * (- n)) div 100" using pos by (simp add: py_trunc_def)
    have "py_trunc (fl (of_int n * fl (7 / 100))) = - py_trunc (fl (of_int (- n) * fl (7 / 100)))"
      using fl_minus [of "of_int (- n) * fl (7 / 100)"] py_trunc_minus [of "fl (of_int (- n) * fl (7 / 100))"]
      by simp
    also have "\<dots> = - ((7 * (- n)) div 100)" using seven_percent_pos [OF pos] by simp
    also have "\<dots> = - py_trunc (of_int (7 * (- n)) / 100)" using r by simp
    also have "\<dots> = py_trunc (of_int (7 * n) / 100)"
      using py_trunc_minus [of "of_int (7 * n) / 100"] by simp
    finally show ?thesis by (simp add: fn)
  qed
qed

text \<open>
  C9 (safe area): the format 1440 x 2560 has the safe rectangle (127, 254, 1182, 2072),
  the literal floats truncated; every other format has \<^verbatim>\<open>x = int(tw * 0.07)\<close>,
  \<^verbatim>\<open>y = int(th * 0.07)\<close>, \<^verbatim>\<open>w = tw - 2 * x\<close> and \<^verbatim>\<open>h = th - 2 * y\<close>. For sizes up to
  \<open>2 ^ 32\<close> the float product truncates to the same integer as the exact 7 percent.
\<close>

theorem safe_rect_rule:
  "safe_rect 1440 2560 = (127, 254, 1182, 2072) \<and>
   ((tw, th) \<noteq> (1440, 2560) \<longrightarrow>
      safe_rect tw th =
        (py_int (py_mul (PInt tw) (PFloat (fl (7 / 100)))),
         py_int (py_mul (PInt th) (PFloat (fl (7 / 100)))),
         tw - 2 * py_int (py_mul (PInt tw) (PFloat (fl (7 / 100)))),
         th - 2 * py_int (py_mul (PInt th) (PFloat (fl (7 / 100)))))) \<and>
   (\<forall>n. \<bar>n\<bar> \<le> 2 ^ 32 \<longrightarrow>
      py_int (py_mul (PInt n) (PFloat (fl (7 / 100)))) = py_trunc (of_int (7 * n) / 100))"
proof -
  have 1: "(tw, th) \<noteq> (1440, 2560) \<longrightarrow>
      safe_rect tw th =
        (py_int (py_mul (PInt tw) (PFloat (fl (7 / 100)))),
         py_int (py_mul (PInt th) (PFloat (fl (7 / 100)))),
         tw - 2 * py_int (py_mul (PInt tw) (PFloat (fl (7 / 100)))),
         th - 2 * py_int (py_mul (PInt th) (PFloat (fl (7 / 100)))))"
    by (auto simp: safe_rect_def Let_def)
  have 2: "\<forall>n. \<bar>n\<bar> \<le> 2 ^ 32 \<longrightarrow>
      py_int (py_mul (PInt n) (PFloat (fl (7 / 100)))) = py_trunc (of_int (7 * n) / 100)"
    using seven_percent by blast
  from ev_override 1 2 show ?thesis by blast
qed

theorem safe_rect_rule_witness:
  "(1200, 628) \<noteq> (1440 :: int, 2560 :: int) \<and> safe_rect 1200 628 = (84, 43, 1032, 542) \<and>
   \<bar>1200 :: int\<bar> \<le> 2 ^ 32 \<and> \<bar>628 :: int\<bar> \<le> 2 ^ 32 \<and>
   py_trunc (of_int (7 * 1200) / 100) = 84 \<and> py_trunc (of_int (7 * 628) / 100) = 43"
proof -
  have ne: "(1200, 628) \<noteq> (1440 :: int, 2560 :: int)" by simp
  have b: "\<bar>1200 :: int\<bar> \<le> 2 ^ 32" "\<bar>628 :: int\<bar> \<le> 2 ^ 32" by simp_all
  have tx: "py_trunc (of_int (7 * 1200) / 100) = 84" by (simp add: py_trunc_def)
  have ty: "py_trunc (of_int (7 * 628) / 100) = 43" by (simp add: py_trunc_def floor_rat_numeral)
  note r = safe_rect_rule [of 1200 628]
  from r b have x: "py_int (py_mul (PInt 1200) (PFloat (fl (7 / 100)))) = 84"
    and y: "py_int (py_mul (PInt 628) (PFloat (fl (7 / 100)))) = 43"
    unfolding tx [symmetric] ty [symmetric] by blast+
  from r ne have "safe_rect 1200 628 =
        (py_int (py_mul (PInt 1200) (PFloat (fl (7 / 100)))),
         py_int (py_mul (PInt 628) (PFloat (fl (7 / 100)))),
         1200 - 2 * py_int (py_mul (PInt 1200) (PFloat (fl (7 / 100)))),
         628 - 2 * py_int (py_mul (PInt 628) (PFloat (fl (7 / 100)))))" by blast
  then show ?thesis unfolding x y using ne b tx ty by simp
qed

end
